theory Spec2Isabelle
  imports Complex_Main "HOL-Library.AList"
begin

chapter \<open>web-ble-kit: state machine, retry engine, connection pool, operation queue\<close>

section \<open>JavaScript strings and errors (src/errors/errors.ts)\<close>

text \<open>
  Strings are \<^typ>\<open>string\<close>. The patterns and messages of the source are ASCII, and
  \<open>toLowerCase\<close> is modelled on the ASCII letters.
\<close>

definition toLowerCase_char :: "char \<Rightarrow> char" where
  "toLowerCase_char c =
     (case map_of (zip ''ABCDEFGHIJKLMNOPQRSTUVWXYZ'' ''abcdefghijklmnopqrstuvwxyz'') c of
        Some l \<Rightarrow> l
      | None \<Rightarrow> c)"

definition toLowerCase :: "string \<Rightarrow> string" where
  "toLowerCase s = map toLowerCase_char s"

fun startsWith :: "string \<Rightarrow> string \<Rightarrow> bool" where
  "startsWith s [] = True"
| "startsWith [] (p # ps) = False"
| "startsWith (c # cs) (p # ps) = (c = p \<and> startsWith cs ps)"

text \<open>\<open>s.includes(p)\<close>: \<open>p\<close> occurs in \<open>s\<close> as a contiguous substring.\<close>

fun js_includes :: "string \<Rightarrow> string \<Rightarrow> bool" where
  "js_includes [] p = (p = [])"
| "js_includes (c # cs) p = (startsWith (c # cs) p \<or> js_includes cs p)"

text \<open>
  Decimal rendering of an integer, as a template literal renders a whole number of
  magnitude below \<open>10^21\<close> (from there on JavaScript prints exponent notation, which is
  not modelled; nor are fractional numbers).
\<close>

definition digit_char :: "nat \<Rightarrow> char" where
  "digit_char d = ''0123456789'' ! d"

function show_nat :: "nat \<Rightarrow> string" where
  "show_nat n = (if n < 10 then [digit_char n] else show_nat (n div 10) @ [digit_char (n mod 10)])"
  by pat_completeness auto
termination
  by (relation "measure (\<lambda>n. n)") auto

definition show_int :: "int \<Rightarrow> string" where
  "show_int i = (if i < 0 then CHR ''-'' # show_nat (nat (- i)) else show_nat (nat i))"

text \<open>
  An error value: the class it was constructed from (what \<open>instanceof\<close> tests), and its
  \<open>name\<close> and \<open>message\<close> properties.
\<close>

datatype error_class = ErrorClass | AbortErrorClass | TimeoutErrorClass | RangeErrorClass

record js_error =
  err_class :: error_class
  err_name :: string
  err_message :: string

definition Error :: "string \<Rightarrow> js_error" where
  "Error msg = \<lparr>err_class = ErrorClass, err_name = ''Error'', err_message = msg\<rparr>"

definition RangeError :: "string \<Rightarrow> js_error" where
  "RangeError msg = \<lparr>err_class = RangeErrorClass, err_name = ''RangeError'', err_message = msg\<rparr>"

definition AbortError :: "string \<Rightarrow> js_error" where
  "AbortError msg = \<lparr>err_class = AbortErrorClass, err_name = ''AbortError'', err_message = msg\<rparr>"

definition TimeoutError :: "string \<Rightarrow> nat \<Rightarrow> js_error" where
  "TimeoutError operation timeout =
     \<lparr>err_class = TimeoutErrorClass, err_name = ''TimeoutError'',
      err_message = operation @ '' timed out after '' @ show_nat timeout @ ''ms''\<rparr>"

definition nonRetryablePatterns :: "string list" where
  "nonRetryablePatterns =
     [''user cancelled'', ''user canceled'', ''user denied'', ''notallowederror'',
      ''securityerror'', ''not found'', ''no device selected'', ''permission denied'']"

definition retryablePatterns :: "string list" where
  "retryablePatterns =
     [''network'', ''gatt'', ''connection'', ''disconnect'', ''failed to execute'',
      ''operation failed'', ''not connected'']"

text \<open>
  \<open>for (const pattern of patterns) if (message.includes(pattern) || name.includes(pattern))\<close>:
  some pattern of the list occurs in the lower-cased message or name.
\<close>

definition matchesAny :: "string list \<Rightarrow> js_error \<Rightarrow> bool" where
  "matchesAny patterns e =
     list_ex (\<lambda>pattern. js_includes (toLowerCase (err_message e)) pattern
                        \<or> js_includes (toLowerCase (err_name e)) pattern) patterns"

definition isTransientBLEError :: "js_error \<Rightarrow> bool" where
  "isTransientBLEError e =
     (if err_class e = AbortErrorClass \<or> err_name e = ''AbortError'' then False
      else if err_class e = TimeoutErrorClass \<or> err_name e = ''TimeoutError'' then True
      else if matchesAny nonRetryablePatterns e then False
      else if matchesAny retryablePatterns e then True
      else False)"

text \<open>
  An \<open>AbortSignal\<close> as the code reads it: \<open>signal.aborted\<close> and \<open>signal.reason?.message\<close>.
\<close>

record AbortSignal =
  aborted :: bool
  reason_message :: "string option"

definition abort_message :: "AbortSignal \<Rightarrow> string" where
  "abort_message sg = (case reason_message sg of Some msg \<Rightarrow> msg | None \<Rightarrow> ''Operation aborted'')"

definition signal_aborted :: "AbortSignal option \<Rightarrow> bool" where
  "signal_aborted sg = (case sg of Some s \<Rightarrow> aborted s | None \<Rightarrow> False)"

definition signal_message :: "AbortSignal option \<Rightarrow> string" where
  "signal_message sg = (case sg of Some s \<Rightarrow> abort_message s | None \<Rightarrow> ''Operation aborted'')"

section \<open>Connection state machine (src/state/state-machine.ts)\<close>

datatype ConnectionState = Disconnected | Connecting | Connected | ErrorState

fun state_name :: "ConnectionState \<Rightarrow> string" where
  "state_name Disconnected = ''disconnected''"
| "state_name Connecting = ''connecting''"
| "state_name Connected = ''connected''"
| "state_name ErrorState = ''error''"

fun VALID_TRANSITIONS :: "ConnectionState \<Rightarrow> ConnectionState list" where
  "VALID_TRANSITIONS Disconnected = [Connecting]"
| "VALID_TRANSITIONS Connecting = [Connected, ErrorState, Disconnected]"
| "VALID_TRANSITIONS Connected = [Disconnected, ErrorState]"
| "VALID_TRANSITIONS ErrorState = [Disconnected, Connecting]"

text \<open>
  A transition callback is client code that runs with the machine in scope. It is modelled
  as a straight-line program over the machine's interface, chosen from the \<open>(from, to)\<close>
  it is called with: it may call \<open>transition\<close> and let the exception escape, call it
  inside its own try/catch, read \<open>getState\<close> and \<open>canTransition\<close>, and throw.
  (Callbacks that register or remove callbacks while the loop runs are not modelled.)
\<close>

datatype cb_action =
    CallTransition ConnectionState
  | TryTransition ConnectionState
  | CallGetState
  | CallCanTransition ConnectionState
  | Throw js_error

type_synonym TransitionCallback = "ConnectionState \<Rightarrow> ConnectionState \<Rightarrow> cb_action list"

text \<open>What the client code and the console saw, in order.\<close>

datatype sm_obs =
    CallbackInvoked nat ConnectionState ConnectionState
  | TransitionReturned ConnectionState
  | TransitionThrew ConnectionState js_error
  | GetStateReturned ConnectionState
  | CanTransitionReturned ConnectionState bool
  | ConsoleError js_error

text \<open>
  The closure variables \<open>state\<close>, \<open>callbacks\<close> (a Set, in insertion order) and
  \<open>isTransitioning\<close>; \<open>sm_trace\<close> is a ghost log of observations.
\<close>

record state_machine =
  state :: ConnectionState
  callbacks :: "TransitionCallback list"
  isTransitioning :: bool
  sm_trace :: "sm_obs list"

definition createStateMachine :: "ConnectionState \<Rightarrow> state_machine" where
  "createStateMachine initialState =
     \<lparr>state = initialState, callbacks = [], isTransitioning = False, sm_trace = []\<rparr>"

definition getState :: "state_machine \<Rightarrow> ConnectionState" where
  "getState m = state m"

definition canTransition :: "state_machine \<Rightarrow> ConnectionState \<Rightarrow> bool" where
  "canTransition m to = (to \<in> set (VALID_TRANSITIONS (state m)))"

text \<open>Registration appends; the callbacks in this model are distinct closures.\<close>

definition onTransition :: "state_machine \<Rightarrow> TransitionCallback \<Rightarrow> state_machine" where
  "onTransition m callback = m\<lparr>callbacks := callbacks m @ [callback]\<rparr>"

definition reentrant_error :: "ConnectionState \<Rightarrow> ConnectionState \<Rightarrow> js_error" where
  "reentrant_error s to =
     Error (''Cannot transition while another transition is in progress (attempted ''
            @ state_name s @ '' -> '' @ state_name to @ '')'')"

definition invalid_transition_error :: "ConnectionState \<Rightarrow> ConnectionState \<Rightarrow> js_error" where
  "invalid_transition_error s to =
     Error (''Invalid state transition: '' @ state_name s @ '' -> '' @ state_name to)"

definition log_obs :: "sm_obs \<Rightarrow> state_machine \<Rightarrow> state_machine" where
  "log_obs ob m = m\<lparr>sm_trace := sm_trace m @ [ob]\<rparr>"

text \<open>
  A call of \<open>transition\<close> returns normally (\<open>Inr ()\<close>) or throws (\<open>Inl e\<close>), and leaves a
  machine. \<open>None\<close> is "call depth exhausted" (see \<open>transition_d\<close>).
\<close>

type_synonym sm_result = "((js_error + unit) \<times> state_machine) option"

text \<open>
  The body of one callback. The first component of the result is the exception that
  escaped it, if any. \<open>tr\<close> is the machine's \<open>transition\<close> as the callback sees it.
\<close>

fun run_callback ::
  "(state_machine \<Rightarrow> ConnectionState \<Rightarrow> sm_result) \<Rightarrow> cb_action list \<Rightarrow> state_machine
     \<Rightarrow> (js_error option \<times> state_machine) option" where
  "run_callback tr [] m = Some (None, m)"
| "run_callback tr (CallTransition to # acts) m =
     (case tr m to of
        None \<Rightarrow> None
      | Some (Inl e, m') \<Rightarrow> Some (Some e, log_obs (TransitionThrew to e) m')
      | Some (Inr u, m') \<Rightarrow> run_callback tr acts (log_obs (TransitionReturned to) m'))"
| "run_callback tr (TryTransition to # acts) m =
     (case tr m to of
        None \<Rightarrow> None
      | Some (Inl e, m') \<Rightarrow> run_callback tr acts (log_obs (TransitionThrew to e) m')
      | Some (Inr u, m') \<Rightarrow> run_callback tr acts (log_obs (TransitionReturned to) m'))"
| "run_callback tr (CallGetState # acts) m =
     run_callback tr acts (log_obs (GetStateReturned (getState m)) m)"
| "run_callback tr (CallCanTransition to # acts) m =
     run_callback tr acts (log_obs (CanTransitionReturned to (canTransition m to)) m)"
| "run_callback tr (Throw e # acts) m = Some (Some e, m)"

text \<open>
  \<open>for (const cb of callbacks) { try { cb(from, to) } catch (e) { console.error(..., e) } }\<close>;
  the number is the callback's position in registration order.
\<close>

fun run_callbacks ::
  "(state_machine \<Rightarrow> ConnectionState \<Rightarrow> sm_result) \<Rightarrow> nat \<Rightarrow> TransitionCallback list
     \<Rightarrow> ConnectionState \<Rightarrow> ConnectionState \<Rightarrow> state_machine \<Rightarrow> state_machine option" where
  "run_callbacks tr i [] from to m = Some m"
| "run_callbacks tr i (cb # cbs) from to m =
     (case run_callback tr (cb from to) (log_obs (CallbackInvoked i from to) m) of
        None \<Rightarrow> None
      | Some (None, m') \<Rightarrow> run_callbacks tr (Suc i) cbs from to m'
      | Some (Some e, m') \<Rightarrow> run_callbacks tr (Suc i) cbs from to (log_obs (ConsoleError e) m'))"

text \<open>
  \<open>transition(to)\<close>. A callback may call \<open>transition\<close> again, so the function is
  recursive through the callbacks; \<open>d\<close> bounds the depth of nested executions of the
  callback loop, and the guards of the source need no depth.
\<close>

primrec transition_d :: "nat \<Rightarrow> state_machine \<Rightarrow> ConnectionState \<Rightarrow> sm_result" where
  "transition_d 0 m to =
     (if isTransitioning m then Some (Inl (reentrant_error (state m) to), m)
      else if \<not> canTransition m to then Some (Inl (invalid_transition_error (state m) to), m)
      else None)"
| "transition_d (Suc d) m to =
     (if isTransitioning m then Some (Inl (reentrant_error (state m) to), m)
      else if \<not> canTransition m to then Some (Inl (invalid_transition_error (state m) to), m)
      else
        (let from = state m;
             m1 = m\<lparr>state := to, isTransitioning := True\<rparr>
         in case run_callbacks (transition_d d) 0 (callbacks m1) from to m1 of
              None \<Rightarrow> None
            | Some m2 \<Rightarrow> Some (Inr (), m2\<lparr>isTransitioning := False\<rparr>)))"

text \<open>The allowed-transition table as the specification writes it.\<close>

definition spec_transition_table :: "(ConnectionState \<times> ConnectionState) set" where
  "spec_transition_table =
     {(Disconnected, Connecting),
      (Connecting, Connected), (Connecting, ErrorState), (Connecting, Disconnected),
      (Connected, Disconnected), (Connected, ErrorState),
      (ErrorState, Disconnected), (ErrorState, Connecting)}"

text \<open>A machine in state \<open>from\<close> with the given callbacks registered, at rest.\<close>

definition machine_with :: "ConnectionState \<Rightarrow> TransitionCallback list \<Rightarrow> state_machine" where
  "machine_with from cbs = foldl onTransition (createStateMachine from) cbs"

text \<open>The inner calls of \<open>transition\<close> recorded in a trace, with what they did.\<close>

fun inner_transition_calls :: "sm_obs list \<Rightarrow> (ConnectionState \<times> js_error option) list" where
  "inner_transition_calls [] = []"
| "inner_transition_calls (TransitionReturned to # obs) = (to, None) # inner_transition_calls obs"
| "inner_transition_calls (TransitionThrew to e # obs) = (to, Some e) # inner_transition_calls obs"
| "inner_transition_calls (ob # obs) = inner_transition_calls obs"

fun observed_states :: "sm_obs list \<Rightarrow> ConnectionState list" where
  "observed_states [] = []"
| "observed_states (GetStateReturned s # obs) = s # observed_states obs"
| "observed_states (ob # obs) = observed_states obs"

text \<open>
  Inside the callback loop of a transition to \<open>s\<close>: the state is already \<open>s\<close>, the
  guard flag is set, and every inner call of \<open>transition\<close> recorded so far threw the
  reentrancy error, every \<open>getState\<close> returned \<open>s\<close>.
\<close>

definition guarded_obs :: "ConnectionState \<Rightarrow> sm_obs list \<Rightarrow> bool" where
  "guarded_obs s obs \<longleftrightarrow>
     (\<forall>(t, r) \<in> set (inner_transition_calls obs). r = Some (reentrant_error s t))
     \<and> (\<forall>x \<in> set (observed_states obs). x = s)"

definition in_loop :: "ConnectionState \<Rightarrow> TransitionCallback list \<Rightarrow> state_machine \<Rightarrow> bool" where
  "in_loop s cbs m \<longleftrightarrow>
     state m = s \<and> isTransitioning m \<and> callbacks m = cbs \<and> guarded_obs s (sm_trace m)"

text \<open>
  A sample callback: reads the state, tries \<open>transition('disconnected')\<close> inside a
  try/catch, reads the state again, then calls \<open>transition('connected')\<close> unprotected.
\<close>

definition cb_demo :: TransitionCallback where
  "cb_demo from to =
     [CallGetState, TryTransition Disconnected, CallGetState, CallTransition Connected,
      CallGetState]"

section \<open>Operation queue (createOperationQueue)\<close>

text \<open>\<open>OperationQueueOptions\<close>; \<open>createOperationQueue\<close> destructures \<open>signal\<close> only.\<close>

record OperationQueueOptions =
  maxConcurrent :: "int option"
  signal :: "AbortSignal option"

text \<open>
  Each accepted \<open>enqueue\<close> builds one promise chain
  \<open>currentQueue.then(A).then(B).catch(C).finally(D)\<close> (\<open>newQueue\<close>) and one deferred
  result promise. The operation queued is identified by its position in enqueue order.
  Its chain is \<open>Waiting\<close> until \<open>A\<close> runs, \<open>Running\<close> while the promise of
  \<open>operation()\<close> is pending, \<open>Delivered\<close> once \<open>B\<close> or \<open>C\<close> has settled the result
  promise, and \<open>Done\<close> once \<open>D\<close> has run, which is when \<open>newQueue\<close> is fulfilled
  (\<open>C\<close> and \<open>D\<close> do not throw, so \<open>newQueue\<close> never rejects). \<open>op_pred\<close> is the chain
  the operation was chained onto: the \<open>newQueue\<close> of an earlier operation, or
  \<open>Promise.resolve()\<close> (\<open>None\<close>).
\<close>

datatype op_status = Waiting | Running | Delivered | Done

datatype 'v handle_state = Pending | Fulfilled 'v | RejectedWith js_error

record 'v queued_op =
  op_key :: string
  op_pred :: "nat option"
  op_status :: op_status
  op_result :: "'v handle_state"

text \<open>
  The closure variables \<open>signal\<close> (with the current state of the signal), \<open>queues\<close>,
  \<open>queueDepths\<close> and \<open>cleared\<close>; the operations enqueued so far; and two logs: the
  operations in the order in which \<open>operation()\<close> was invoked, and the calls of
  \<open>enqueue\<close> that were rejected at once.
\<close>

record 'v queue_state =
  q_signal :: "AbortSignal option"
  queues :: "(string \<times> nat) list"
  queueDepths :: "(string \<times> int) list"
  cleared :: bool
  ops :: "'v queued_op list"
  invoked :: "nat list"
  refused :: "(string \<times> js_error) list"

definition createOperationQueue :: "OperationQueueOptions \<Rightarrow> 'v queue_state" where
  "createOperationQueue options =
     \<lparr>q_signal = signal options, queues = [], queueDepths = [], cleared = False, ops = [],
      invoked = [], refused = []\<rparr>"

text \<open>
  \<open>enqueue(characteristicUuid, operation)\<close>: the synchronous part. The result is the
  error of an already rejected promise, or the operation queued.
\<close>

definition enqueue :: "string \<Rightarrow> 'v queue_state \<Rightarrow> (js_error + nat) \<times> 'v queue_state" where
  "enqueue characteristicUuid st =
     (if signal_aborted (q_signal st) then
        (Inl (AbortError (signal_message (q_signal st))), st)
      else if cleared st then
        (Inl (AbortError ''Queue has been cleared''), st)
      else
        (let currentDepth = (case map_of (queueDepths st) characteristicUuid of
                               Some d \<Rightarrow> d | None \<Rightarrow> 0);
             currentQueue = map_of (queues st) characteristicUuid;
             newQueue = length (ops st)
         in (Inr newQueue,
             st\<lparr>queueDepths := AList.update characteristicUuid (currentDepth + 1) (queueDepths st),
                ops := ops st @ [\<lparr>op_key = characteristicUuid, op_pred = currentQueue,
                                  op_status = Waiting, op_result = Pending\<rparr>],
                queues := AList.update characteristicUuid newQueue (queues st)\<rparr>)))"

text \<open>The chain an operation waits on is fulfilled.\<close>

definition chain_settled :: "'v queue_state \<Rightarrow> nat option \<Rightarrow> bool" where
  "chain_settled st p =
     (case p of None \<Rightarrow> True | Some q \<Rightarrow> q < length (ops st) \<and> op_status (ops st ! q) = Done)"

definition startable :: "'v queue_state \<Rightarrow> nat \<Rightarrow> bool" where
  "startable st i \<longleftrightarrow>
     i < length (ops st) \<and> op_status (ops st ! i) = Waiting
     \<and> chain_settled st (op_pred (ops st ! i))"

text \<open>
  \<open>resolveOp\<close> or \<open>rejectOp\<close> is called with the outcome; a promise that is already
  settled stays as it is.
\<close>

definition deliver :: "js_error + 'v \<Rightarrow> 'v queued_op \<Rightarrow> 'v queued_op" where
  "deliver res opn =
     opn\<lparr>op_status := Delivered,
         op_result := (case op_result opn of
                         Pending \<Rightarrow> (case res of Inr v \<Rightarrow> Fulfilled v | Inl e \<Rightarrow> RejectedWith e)
                       | Fulfilled v \<Rightarrow> Fulfilled v
                       | RejectedWith e \<Rightarrow> RejectedWith e)\<rparr>"

text \<open>
  The reaction \<open>A\<close> of operation \<open>i\<close> runs, once the chain it waits on is fulfilled: it
  throws an \<open>AbortError\<close> if the signal is aborted or the queue cleared (then \<open>C\<close>
  rejects the result promise), and invokes \<open>operation()\<close> otherwise.
\<close>

definition start :: "nat \<Rightarrow> 'v queue_state \<Rightarrow> 'v queue_state" where
  "start i st =
     (if \<not> startable st i then st
      else if signal_aborted (q_signal st) then
        st\<lparr>ops := (ops st)[i := deliver (Inl (AbortError (signal_message (q_signal st)))) (ops st ! i)]\<rparr>
      else if cleared st then
        st\<lparr>ops := (ops st)[i := deliver (Inl (AbortError ''Queue has been cleared'')) (ops st ! i)]\<rparr>
      else
        st\<lparr>ops := (ops st)[i := (ops st ! i)\<lparr>op_status := Running\<rparr>],
           invoked := invoked st @ [i]\<rparr>)"

text \<open>The promise of \<open>operation()\<close> of operation \<open>i\<close> settles, and \<open>B\<close> or \<open>C\<close> runs.\<close>

definition settle_op :: "nat \<Rightarrow> js_error + 'v \<Rightarrow> 'v queue_state \<Rightarrow> 'v queue_state" where
  "settle_op i res st =
     (if i < length (ops st) \<and> op_status (ops st ! i) = Running
      then st\<lparr>ops := (ops st)[i := deliver res (ops st ! i)]\<rparr>
      else st)"

text \<open>The reaction \<open>D\<close> (the \<open>finally\<close> block) of operation \<open>i\<close> runs.\<close>

definition finalize :: "nat \<Rightarrow> 'v queue_state \<Rightarrow> 'v queue_state" where
  "finalize i st =
     (if i < length (ops st) \<and> op_status (ops st ! i) = Delivered then
        (let characteristicUuid = op_key (ops st ! i);
             depth = (case map_of (queueDepths st) characteristicUuid of Some d \<Rightarrow> d | None \<Rightarrow> 1);
             st1 = (if depth \<le> 1 then
                      st\<lparr>queueDepths := AList.delete characteristicUuid (queueDepths st),
                         queues := (if map_of (queues st) characteristicUuid = Some i
                                    then AList.delete characteristicUuid (queues st)
                                    else queues st)\<rparr>
                    else
                      st\<lparr>queueDepths := AList.update characteristicUuid (depth - 1) (queueDepths st)\<rparr>)
         in st1\<lparr>ops := (ops st1)[i := (ops st1 ! i)\<lparr>op_status := Done\<rparr>]\<rparr>)
      else st)"

text \<open>
  The signal fires: the abort handler of every operation rejects its result promise (a
  no-op on a settled promise). An operation that is running keeps running.
\<close>

definition abort_op :: "string \<Rightarrow> 'v queued_op \<Rightarrow> 'v queued_op" where
  "abort_op msg opn =
     (case op_result opn of
        Pending \<Rightarrow> opn\<lparr>op_result := RejectedWith (AbortError msg)\<rparr>
      | Fulfilled v \<Rightarrow> opn
      | RejectedWith e \<Rightarrow> opn)"

definition abort :: "string option \<Rightarrow> 'v queue_state \<Rightarrow> 'v queue_state" where
  "abort reason st =
     (case q_signal st of
        None \<Rightarrow> st
      | Some sg \<Rightarrow>
          if aborted sg then st
          else
            (let sg' = sg\<lparr>aborted := True, reason_message := reason\<rparr>
             in st\<lparr>q_signal := Some sg', ops := map (abort_op (abort_message sg')) (ops st)\<rparr>))"

definition clear :: "'v queue_state \<Rightarrow> 'v queue_state" where
  "clear st = st\<lparr>cleared := True, queues := [], queueDepths := []\<rparr>"

definition getQueueDepth :: "'v queue_state \<Rightarrow> string \<Rightarrow> int" where
  "getQueueDepth st characteristicUuid =
     (case map_of (queueDepths st) characteristicUuid of Some d \<Rightarrow> d | None \<Rightarrow> 0)"

text \<open>
  What can happen to a queue: \<open>enqueue\<close> or \<open>clear\<close> is called, the signal fires, a
  reaction of a chain runs, the promise of a running operation settles. A step that is
  not possible in the state (a reaction whose promise is not settled) changes nothing.
\<close>

datatype 'v queue_input =
    Enqueue string
  | Start nat
  | Settle nat "js_error + 'v"
  | Finalize nat
  | Abort "string option"
  | Clear

fun queue_step :: "'v queue_state \<Rightarrow> 'v queue_input \<Rightarrow> 'v queue_state" where
  "queue_step st (Enqueue k) =
     (case enqueue k st of
        (Inl e, st') \<Rightarrow> st'\<lparr>refused := refused st' @ [(k, e)]\<rparr>
      | (Inr i, st') \<Rightarrow> st')"
| "queue_step st (Start i) = start i st"
| "queue_step st (Settle i res) = settle_op i res st"
| "queue_step st (Finalize i) = finalize i st"
| "queue_step st (Abort reason) = abort reason st"
| "queue_step st Clear = clear st"

definition run_queue :: "'v queue_state \<Rightarrow> 'v queue_input list \<Rightarrow> 'v queue_state" where
  "run_queue st inputs = foldl queue_step st inputs"

text \<open>The operations on key \<open>k\<close> that are not \<open>Done\<close>.\<close>

definition count_open :: "string \<Rightarrow> 'v queued_op list \<Rightarrow> nat" where
  "count_open k os = length (filter (\<lambda>opn. op_key opn = k \<and> op_status opn \<noteq> Done) os)"

text \<open>
  The invariants of the queue. \<open>inv_chain\<close>: an operation was chained onto the latest
  earlier operation on its key, or onto nothing when every earlier operation on its key
  was done. \<open>inv_started\<close>: an operation that has left \<open>Waiting\<close> waited on a fulfilled
  chain. \<open>inv_tail\<close>: unless the queue was cleared, \<open>queues\<close> holds for each key the
  latest operation on it, or nothing when all are done, and \<open>queueDepths\<close> holds the
  number of operations on the key that are not done. \<open>inv_log\<close>: the operations invoked
  have left \<open>Waiting\<close>.
\<close>

definition inv_chain :: "'v queue_state \<Rightarrow> bool" where
  "inv_chain st \<longleftrightarrow>
     (\<forall>i < length (ops st).
        case op_pred (ops st ! i) of
          None \<Rightarrow> (\<forall>j < i. op_key (ops st ! j) = op_key (ops st ! i) \<longrightarrow> op_status (ops st ! j) = Done)
        | Some p \<Rightarrow> p < i \<and> op_key (ops st ! p) = op_key (ops st ! i)
                    \<and> (\<forall>j < i. op_key (ops st ! j) = op_key (ops st ! i) \<longrightarrow> j \<le> p))"

definition inv_started :: "'v queue_state \<Rightarrow> bool" where
  "inv_started st \<longleftrightarrow>
     (\<forall>i < length (ops st). op_status (ops st ! i) \<noteq> Waiting \<longrightarrow> chain_settled st (op_pred (ops st ! i)))"

definition tail_ok :: "'v queue_state \<Rightarrow> string \<Rightarrow> bool" where
  "tail_ok st k \<longleftrightarrow>
     (case map_of (queues st) k of
        None \<Rightarrow> count_open k (ops st) = 0
      | Some t \<Rightarrow> t < length (ops st) \<and> op_key (ops st ! t) = k
                  \<and> (\<forall>j < length (ops st). op_key (ops st ! j) = k \<longrightarrow> j \<le> t))"

definition depth_ok :: "'v queue_state \<Rightarrow> string \<Rightarrow> bool" where
  "depth_ok st k \<longleftrightarrow>
     map_of (queueDepths st) k
       = (if count_open k (ops st) = 0 then None else Some (int (count_open k (ops st))))"

definition inv_tail :: "'v queue_state \<Rightarrow> bool" where
  "inv_tail st \<longleftrightarrow> (\<not> cleared st \<longrightarrow> (\<forall>k. tail_ok st k \<and> depth_ok st k))"

definition inv_log :: "'v queue_state \<Rightarrow> bool" where
  "inv_log st \<longleftrightarrow>
     (\<forall>i \<in> set (invoked st). i < length (ops st) \<and> op_status (ops st ! i) \<noteq> Waiting)"

definition queue_inv :: "'v queue_state \<Rightarrow> bool" where
  "queue_inv st \<longleftrightarrow> inv_chain st \<and> inv_started st \<and> inv_tail st \<and> inv_log st"

text \<open>
  Serialization: an operation that has left \<open>Waiting\<close> has every earlier operation on
  its key \<open>Done\<close>. So at most one operation per key is between its start and the end
  of its \<open>finally\<close> block, and operations on one key start in enqueue order.
\<close>

definition serialized :: "'v queue_state \<Rightarrow> bool" where
  "serialized st \<longleftrightarrow>
     (\<forall>j < length (ops st). \<forall>i < j.
        op_key (ops st ! i) = op_key (ops st ! j) \<and> op_status (ops st ! j) \<noteq> Waiting
        \<longrightarrow> op_status (ops st ! i) = Done)"

text \<open>The operations invoked on key \<open>k\<close>, in the order of their invocation.\<close>

definition invoked_on :: "'v queue_state \<Rightarrow> string \<Rightarrow> nat list" where
  "invoked_on st k = filter (\<lambda>i. op_key (ops st ! i) = k) (invoked st)"

definition inv_order :: "'v queue_state \<Rightarrow> bool" where
  "inv_order st \<longleftrightarrow> (\<forall>k. sorted_wrt (<) (invoked_on st k))"

text \<open>
  Everything in a queue but the states of the result promises: what decides which
  reactions can run and what they do to the lanes.
\<close>

definition chain_view ::
  "'v queue_state \<Rightarrow> (string \<times> nat option \<times> op_status) list \<times> (string \<times> nat) list
     \<times> (string \<times> int) list \<times> bool \<times> nat list \<times> AbortSignal option" where
  "chain_view st =
     (map (\<lambda>opn. (op_key opn, op_pred opn, op_status opn)) (ops st),
      queues st, queueDepths st, cleared st, invoked st, q_signal st)"

text \<open>An operation is between the start of \<open>operation()\<close> and the end of its \<open>finally\<close> block.\<close>

definition in_progress :: "'v queue_state \<Rightarrow> nat \<Rightarrow> bool" where
  "in_progress st i \<longleftrightarrow> op_status (ops st ! i) = Running \<or> op_status (ops st ! i) = Delivered"

text \<open>Sample runs: string results, no signal.\<close>

definition no_options :: OperationQueueOptions where
  "no_options = \<lparr>maxConcurrent = None, signal = None\<rparr>"

definition boom :: js_error where
  "boom = Error ''boom''"

text \<open>
  Two operations on key X. The reaction of the second is tried before the first has
  started, while it runs, and after it failed but before its \<open>finally\<close> block: it can
  only run after that block.
\<close>

definition same_key_run :: "string queue_input list" where
  "same_key_run =
     [Enqueue ''X'', Enqueue ''X'', Start 1, Start 0, Start 1, Settle 0 (Inl boom), Start 1,
      Finalize 0, Start 1, Settle 1 (Inr ''2''), Finalize 1]"

text \<open>One operation on X and one on Y: either may start and complete first.\<close>

definition two_keys_Y_first :: "string queue_input list" where
  "two_keys_Y_first =
     [Enqueue ''X'', Enqueue ''Y'', Start 0, Start 1, Settle 1 (Inr ''2''), Finalize 1]"

definition two_keys_X_first :: "string queue_input list" where
  "two_keys_X_first =
     [Enqueue ''X'', Enqueue ''Y'', Start 1, Start 0, Settle 0 (Inr ''1''), Finalize 0]"

text \<open>A queue created with \<open>{maxConcurrent: 5}\<close>, two operations on X, both reactions tried.\<close>

definition five_concurrent :: OperationQueueOptions where
  "five_concurrent = \<lparr>maxConcurrent = Some 5, signal = None\<rparr>"

definition both_tried :: "string queue_input list" where
  "both_tried = [Enqueue ''X'', Enqueue ''X'', Start 0, Start 1]"

text \<open>Two operations on X, the first running.\<close>

definition first_running :: "string queue_input list" where
  "first_running = [Enqueue ''X'', Enqueue ''X'', Start 0]"

section \<open>Retry engine (src/ble/transport.ts, withRetry)\<close>

text \<open>
  \<open>RetryOptions\<close>: every field is optional. JavaScript numbers are modelled by
  \<^typ>\<open>int\<close> for the attempt count and \<^typ>\<open>real\<close> for delays and the multiplier
  (no rounding, no NaN). \<open>onRetry\<close> records whether an observer was supplied; its calls
  are collected in the run.
\<close>

record RetryOptions =
  maxAttempts :: "int option"
  initialDelayMs :: "real option"
  maxDelayMs :: "real option"
  backoffMultiplier :: "real option"
  jitter :: "bool option"
  signal :: "AbortSignal option"
  onRetry :: bool
  isRetryable :: "(js_error \<Rightarrow> bool) option"

text \<open>
  The environment of one call: what the \<open>n\<close>-th invocation of \<open>operation\<close> does
  (\<open>n = 1, 2, ...\<close>), whether the signal fires during the wait that follows the
  \<open>n\<close>-th attempt, and the reason it is then aborted with, \<open>signal.reason\<close>: the argument
  of \<open>controller.abort(reason)\<close>, taken to be an \<open>Error\<close> instance (with no argument it is
  a \<open>DOMException\<close> named \<open>AbortError\<close>).
\<close>

record 'a retry_env =
  operation :: "nat \<Rightarrow> js_error + 'a"
  abortsDuringDelay :: "nat \<Rightarrow> bool"
  abortReason :: js_error

text \<open>What a call of \<open>withRetry\<close> did: its result, how often it invoked the operation,
  and the arguments of each \<open>onRetry\<close> call, in order.\<close>

record 'a retry_run =
  outcome :: "js_error + 'a"
  invocations :: nat
  onRetryCalls :: "(nat \<times> real \<times> js_error) list"

text \<open>
  What the function handed to the retry loop does on one attempt: it resolves, rejects
  with the operation's error, or rejects with the package's stop marker
  \<open>new PRetryAbortError(error.message)\<close>.
\<close>

datatype 'a attempt_outcome = Resolved 'a | Rejected js_error | RejectedStop string

text \<open>
  The result of the loop, the number of attempts made, the \<open>onFailedAttempt\<close> calls as
  \<open>(attemptNumber, retriesLeft, error)\<close>, and whether the signal fired.
\<close>

type_synonym 'a pretry_run = "(js_error + 'a) \<times> nat \<times> (nat \<times> nat \<times> js_error) list \<times> bool"

text \<open>
  Modelled from the spec: the retry loop \<open>pRetry\<close> of the external package p-retry, which
  \<open>withRetry\<close> calls and which is not under src/. Following section 4.3 of the
  specification: the attempt counter starts at 1; on success return immediately; on
  failure, if the error is marked non-retryable, propagate it at once (the marker
  carries only the message, so the error propagated is an \<open>Error\<close> with that message);
  otherwise report the failed attempt with its number and the retries left, and if this
  was the last permitted attempt propagate the error; otherwise wait (the wait is
  cancellable: if the signal fires during it, stop and reject with the signal's abort
  reason), increment the attempt and retry. The first argument is the number of retries
  left, the second the attempt number.
\<close>

fun pRetry_from ::
  "nat \<Rightarrow> nat \<Rightarrow> (nat \<Rightarrow> 'a attempt_outcome) \<Rightarrow> (nat \<Rightarrow> bool) \<Rightarrow> js_error \<Rightarrow> 'a pretry_run" where
  "pRetry_from 0 attempt input aborts reason =
     (case input attempt of
        Resolved v \<Rightarrow> (Inr v, 1, [], False)
      | RejectedStop msg \<Rightarrow> (Inl (Error msg), 1, [], False)
      | Rejected e \<Rightarrow> (Inl e, 1, [(attempt, 0, e)], False))"
| "pRetry_from (Suc retriesLeft) attempt input aborts reason =
     (case input attempt of
        Resolved v \<Rightarrow> (Inr v, 1, [], False)
      | RejectedStop msg \<Rightarrow> (Inl (Error msg), 1, [], False)
      | Rejected e \<Rightarrow>
          (if aborts attempt then (Inl reason, 1, [(attempt, Suc retriesLeft, e)], True)
           else
             (case pRetry_from retriesLeft (Suc attempt) input aborts reason of
                (res, n, failed, fired) \<Rightarrow>
                  (res, Suc n, (attempt, Suc retriesLeft, e) # failed, fired))))"

definition pRetry ::
  "(nat \<Rightarrow> 'a attempt_outcome) \<Rightarrow> nat \<Rightarrow> (nat \<Rightarrow> bool) \<Rightarrow> js_error \<Rightarrow> 'a pretry_run" where
  "pRetry input retries aborts reason = pRetry_from retries 1 input aborts reason"

text \<open>The reason of \<open>controller.abort()\<close> called with no argument.\<close>

definition default_abort_reason :: js_error where
  "default_abort_reason =
     \<lparr>err_class = ErrorClass, err_name = ''AbortError'',
      err_message = ''This operation was aborted''\<rparr>"

text \<open>The delay \<open>withRetry\<close> reports to \<open>onRetry\<close> for a failed attempt (lines 303 and 334-337).\<close>

definition reported_delay :: "real \<Rightarrow> real \<Rightarrow> real \<Rightarrow> nat \<Rightarrow> real" where
  "reported_delay initialDelay maxDelay multiplier attempt =
     (let effectiveInitialDelay = min initialDelay maxDelay
      in min (effectiveInitialDelay * multiplier ^ (attempt - 1)) maxDelay)"

text \<open>The destructuring of \<open>options\<close> with its defaults (lines 282-291).\<close>

definition maxAttempts_of :: "RetryOptions \<Rightarrow> int" where
  "maxAttempts_of options = (case maxAttempts options of Some n \<Rightarrow> n | None \<Rightarrow> 3)"

definition initialDelayMs_of :: "RetryOptions \<Rightarrow> real" where
  "initialDelayMs_of options = (case initialDelayMs options of Some d \<Rightarrow> d | None \<Rightarrow> 1000)"

definition maxDelayMs_of :: "RetryOptions \<Rightarrow> real" where
  "maxDelayMs_of options = (case maxDelayMs options of Some d \<Rightarrow> d | None \<Rightarrow> 30000)"

definition backoffMultiplier_of :: "RetryOptions \<Rightarrow> real" where
  "backoffMultiplier_of options = (case backoffMultiplier options of Some b \<Rightarrow> b | None \<Rightarrow> 2)"

definition isRetryable_of :: "RetryOptions \<Rightarrow> js_error \<Rightarrow> bool" where
  "isRetryable_of options = (case isRetryable options of Some p \<Rightarrow> p | None \<Rightarrow> isTransientBLEError)"

text \<open>
  \<open>withRetry(operation, options)\<close>. The values the operation throws are taken to be
  \<open>Error\<close> instances already. The signal is aborted at the call or fires during a wait;
  in the \<open>catch\<close> of lines 343-348, \<open>signal?.aborted\<close> is then whether it fired, and
  \<open>signal.reason?.message\<close> is the message of the reason it fired with.
\<close>

definition withRetry :: "'a retry_env \<Rightarrow> RetryOptions \<Rightarrow> 'a retry_run" where
  "withRetry env options =
     (if maxAttempts_of options < 1 then
        \<lparr>outcome = Inl (RangeError (''maxAttempts must be >= 1, got ''
                                      @ show_int (maxAttempts_of options))),
         invocations = 0, onRetryCalls = []\<rparr>
      else if signal_aborted (signal options) then
        \<lparr>outcome = Inl (AbortError (signal_message (signal options))),
         invocations = 0, onRetryCalls = []\<rparr>
      else
        (let input = (\<lambda>n. case operation env n of
                             Inr v \<Rightarrow> Resolved v
                           | Inl e \<Rightarrow> if \<not> isRetryable_of options e
                                      then RejectedStop (err_message e)
                                      else Rejected e);
             aborts = (\<lambda>n. signal options \<noteq> None \<and> abortsDuringDelay env n)
         in case pRetry input (nat (maxAttempts_of options - 1)) aborts
                   (abortReason env) of
              (res, n, failed, fired) \<Rightarrow>
                \<lparr>outcome =
                   (case res of
                      Inr v \<Rightarrow> Inr v
                    | Inl e \<Rightarrow>
                        if err_name e = ''AbortError'' \<and> fired
                        then Inl (AbortError (err_message (abortReason env)))
                        else Inl e),
                 invocations = n,
                 onRetryCalls =
                   (if onRetry options
                    then map (\<lambda>(attempt, retriesLeft, e).
                                (attempt,
                                 reported_delay (initialDelayMs_of options) (maxDelayMs_of options)
                                   (backoffMultiplier_of options) attempt,
                                 e))
                             (filter (\<lambda>(attempt, retriesLeft, e). retriesLeft > 0) failed)
                    else [])\<rparr>))"

text \<open>The delay formula as the specification writes it.\<close>

definition spec_delay :: "real \<Rightarrow> real \<Rightarrow> real \<Rightarrow> nat \<Rightarrow> real" where
  "spec_delay initialDelay maxDelay multiplier attempt =
     min (initialDelay * multiplier ^ (attempt - 1)) maxDelay"

text \<open>An operation that fails on calls 1 and 2 and succeeds from call 3 on; no cancellation.\<close>

definition fails_twice :: "js_error \<Rightarrow> js_error \<Rightarrow> 'a \<Rightarrow> 'a retry_env" where
  "fails_twice e1 e2 v =
     \<lparr>operation = (\<lambda>n. if n = 1 then Inl e1 else if n = 2 then Inl e2 else Inr v),
      abortsDuringDelay = (\<lambda>n. False), abortReason = default_abort_reason\<rparr>"

text \<open>An operation that always succeeds.\<close>

definition always_ok :: "'a \<Rightarrow> 'a retry_env" where
  "always_ok v =
     \<lparr>operation = (\<lambda>n. Inr v), abortsDuringDelay = (\<lambda>n. False),
      abortReason = default_abort_reason\<rparr>"

text \<open>Sample inputs.\<close>

definition sample_options :: RetryOptions where
  "sample_options =
     \<lparr>maxAttempts = Some 3, initialDelayMs = Some 100, maxDelayMs = Some 10,
      backoffMultiplier = Some (1 / 2), jitter = Some False, signal = None, onRetry = True,
      isRetryable = None\<rparr>"

definition network_error :: js_error where
  "network_error = Error ''network error''"

definition timeout_not_found :: js_error where
  "timeout_not_found = TimeoutError ''Lookup of device not found earlier'' 5000"

definition network_not_found :: js_error where
  "network_not_found = Error ''Network error: device not found''"

definition gatt_failed :: js_error where
  "gatt_failed = Error ''GATT operation failed for unknown reason''"


text \<open>
  An operation that always fails with a network error, and a signal that fires with the
  given reason during the wait after the first attempt.
\<close>

definition cancelled_during_first_wait :: "js_error \<Rightarrow> 'a retry_env" where
  "cancelled_during_first_wait reason =
     \<lparr>operation = (\<lambda>n. Inl network_error), abortsDuringDelay = (\<lambda>n. n = 1),
      abortReason = reason\<rparr>"

definition with_signal :: RetryOptions where
  "with_signal = sample_options\<lparr>signal := Some \<lparr>aborted = False, reason_message = None\<rparr>\<rparr>"
section \<open>Connection pool (src/ble/connection-pool.ts)\<close>

text \<open>
  A session as the pool uses it: its \<open>deviceId\<close>, whether it has the optional
  \<open>onDisconnect\<close> method, and \<open>session_id\<close>, the identity of the object. An adapter:
  its identity and whether it has the optional \<open>reconnect\<close> method.
\<close>

record BLEConnectedSession =
  deviceId :: string
  session_id :: nat
  has_onDisconnect :: bool

record BLEAdapter =
  adapter_id :: nat
  has_reconnect :: bool

text \<open>
  \<open>ConnectionPoolOptions\<close>. \<open>createAdapter\<close> is called once per \<open>connect()\<close>; what it
  returns is part of the input of that call. \<open>reconnectOptions\<close> only parameterise
  \<open>connectWithRetry\<close>, whose run the pool awaits as a whole.
\<close>

record ConnectionPoolOptions =
  maxConnections :: "int option"
  autoReconnect :: "bool option"

definition MAX_BLE_CONNECTIONS :: int where
  "MAX_BLE_CONNECTIONS = 7"

definition maxConnections_of :: "ConnectionPoolOptions \<Rightarrow> int" where
  "maxConnections_of options =
     (case maxConnections options of Some n \<Rightarrow> n | None \<Rightarrow> MAX_BLE_CONNECTIONS)"

definition autoReconnect_of :: "ConnectionPoolOptions \<Rightarrow> bool" where
  "autoReconnect_of options = (case autoReconnect options of Some b \<Rightarrow> b | None \<Rightarrow> False)"

text \<open>What the pool emits on its emitter, and the calls it makes on its collaborators.\<close>

datatype pool_event = ConnectEvent string BLEConnectedSession | DisconnectEvent string

datatype pool_call =
    CreateAdapter
  | AdapterConnect BLEAdapter
  | ConnectWithRetry string BLEAdapter
  | SessionOnDisconnect BLEConnectedSession string
  | Cleanup nat string
  | SessionDisconnect BLEConnectedSession
  | ConsoleWarn string

text \<open>
  An asynchronous function of the pool that is suspended at an \<open>await\<close>:
  \<open>connect\<close> at \<open>adapter.connect\<close>, \<open>reconnectDevice\<close> at \<open>connectWithRetry\<close> or at the
  teardown of a session it discards, \<open>disconnect\<close> at \<open>session.disconnect\<close>.
\<close>

datatype pool_task =
    ConnectAwait BLEAdapter
  | ReconnectAwait string BLEAdapter
  | DiscardAwait string BLEConnectedSession
  | DisconnectAwait string BLEConnectedSession

text \<open>How a promise returned by the pool settled.\<close>

datatype pool_result =
    ConnectResolved BLEConnectedSession
  | ConnectRejected js_error
  | DisconnectResolved string
  | DisconnectRejected string js_error

text \<open>
  The closure variables of \<open>createConnectionPool\<close>: the three Maps (association lists
  in insertion order), the Set of reconnecting devices and the pending counter. The
  other fields are ghost state: \<open>handlers\<close> are the callbacks registered through
  \<open>session.onDisconnect\<close> and not yet removed, as (session identity, device id handed to
  \<open>handleDisconnect\<close>); \<open>tasks\<close> the suspended asynchronous functions; \<open>emitted\<close>,
  \<open>calls\<close> and \<open>settled\<close> are logs. Listeners of the emitter are taken not to call back
  into the pool.
\<close>

record pool_state =
  sessions :: "(string \<times> BLEConnectedSession) list"
  adapters :: "(string \<times> BLEAdapter) list"
  disconnectCleanups :: "(string \<times> nat) list"
  reconnectingDevices :: "string set"
  pendingConnections :: int
  handlers :: "(nat \<times> string) list"
  tasks :: "pool_task list"
  emitted :: "pool_event list"
  calls :: "pool_call list"
  settled :: "pool_result list"

definition createConnectionPool :: pool_state where
  "createConnectionPool =
     \<lparr>sessions = [], adapters = [], disconnectCleanups = [], reconnectingDevices = {},
      pendingConnections = 0, handlers = [], tasks = [], emitted = [], calls = [],
      settled = []\<rparr>"

definition emit :: "pool_event \<Rightarrow> pool_state \<Rightarrow> pool_state" where
  "emit ev st = st\<lparr>emitted := emitted st @ [ev]\<rparr>"

definition call :: "pool_call \<Rightarrow> pool_state \<Rightarrow> pool_state" where
  "call c st = st\<lparr>calls := calls st @ [c]\<rparr>"

definition settle :: "pool_result \<Rightarrow> pool_state \<Rightarrow> pool_state" where
  "settle r st = st\<lparr>settled := settled st @ [r]\<rparr>"

definition spawn :: "pool_task \<Rightarrow> pool_state \<Rightarrow> pool_state" where
  "spawn t st = st\<lparr>tasks := tasks st @ [t]\<rparr>"

text \<open>The read accessors.\<close>

definition getSession :: "pool_state \<Rightarrow> string \<Rightarrow> BLEConnectedSession option" where
  "getSession st devId = map_of (sessions st) devId"

definition isConnected :: "pool_state \<Rightarrow> string \<Rightarrow> bool" where
  "isConnected st devId = (map_of (sessions st) devId \<noteq> None)"

definition getSessions :: "pool_state \<Rightarrow> (string \<times> BLEConnectedSession) list" where
  "getSessions st = sessions st"

definition connectionCount :: "pool_state \<Rightarrow> int" where
  "connectionCount st = int (length (sessions st))"

text \<open>
  \<open>const cleanup = disconnectCleanups.get(deviceId); if (cleanup) { cleanup();
  disconnectCleanups.delete(deviceId) }\<close>. The cleanup closure of a session removes the
  callback that this registration added.
\<close>

definition run_cleanup :: "string \<Rightarrow> pool_state \<Rightarrow> pool_state" where
  "run_cleanup devId st =
     (case map_of (disconnectCleanups st) devId of
        None \<Rightarrow> st
      | Some sid \<Rightarrow>
          (call (Cleanup sid devId) st)
            \<lparr>handlers := remove1 (sid, devId) (handlers st),
             disconnectCleanups := AList.delete devId (disconnectCleanups st)\<rparr>)"

text \<open>
  \<open>if (session.onDisconnect) { const cleanup = session.onDisconnect(() =>
  handleDisconnect(deviceId)); disconnectCleanups.set(deviceId, cleanup) }\<close>
\<close>

definition register_handler :: "string \<Rightarrow> BLEConnectedSession \<Rightarrow> pool_state \<Rightarrow> pool_state" where
  "register_handler devId session st =
     (if has_onDisconnect session then
        (call (SessionOnDisconnect session devId) st)
          \<lparr>handlers := handlers st @ [(session_id session, devId)],
           disconnectCleanups := AList.update devId (session_id session) (disconnectCleanups st)\<rparr>
      else st)"

text \<open>\<open>reconnectDevice\<close>, up to its first \<open>await\<close>.\<close>

definition reconnectDevice :: "string \<Rightarrow> BLEAdapter \<Rightarrow> pool_state \<Rightarrow> pool_state" where
  "reconnectDevice devId adapter st =
     (if \<not> has_reconnect adapter then st
      else spawn (ReconnectAwait devId adapter)
             (call (ConnectWithRetry devId adapter)
                (st\<lparr>reconnectingDevices := insert devId (reconnectingDevices st)\<rparr>)))"

text \<open>\<open>reconnectDevice\<close> resumed: \<open>connectWithRetry\<close> resolved with \<open>session\<close>.\<close>

definition reconnectDevice_resolved ::
  "string \<Rightarrow> BLEConnectedSession \<Rightarrow> pool_state \<Rightarrow> pool_state" where
  "reconnectDevice_resolved devId session st =
     (if devId \<notin> reconnectingDevices st then
        spawn (DiscardAwait devId session) (call (SessionDisconnect session) st)
      else
        (let st1 = st\<lparr>sessions := AList.update devId session (sessions st)\<rparr>;
             st2 = register_handler devId session st1;
             st3 = emit (ConnectEvent devId session) st2
         in st3\<lparr>reconnectingDevices := reconnectingDevices st3 - {devId}\<rparr>))"

text \<open>\<open>reconnectDevice\<close> resumed: \<open>connectWithRetry\<close> rejected (the catch and finally blocks).\<close>

definition reconnectDevice_rejected :: "string \<Rightarrow> js_error \<Rightarrow> pool_state \<Rightarrow> pool_state" where
  "reconnectDevice_rejected devId e st =
     (let st1 = call (ConsoleWarn (err_message e)) st;
          st2 = st1\<lparr>adapters := AList.delete devId (adapters st1)\<rparr>
      in st2\<lparr>reconnectingDevices := reconnectingDevices st2 - {devId}\<rparr>)"

text \<open>\<open>reconnectDevice\<close> resumed after the teardown of a discarded session: \<open>return\<close>,
  then the finally block.\<close>

definition reconnectDevice_discarded :: "string \<Rightarrow> pool_state \<Rightarrow> pool_state" where
  "reconnectDevice_discarded devId st =
     st\<lparr>reconnectingDevices := reconnectingDevices st - {devId}\<rparr>"

definition handleDisconnect :: "ConnectionPoolOptions \<Rightarrow> string \<Rightarrow> pool_state \<Rightarrow> pool_state" where
  "handleDisconnect options devId st =
     (case map_of (sessions st) devId of
        None \<Rightarrow> st
      | Some session \<Rightarrow>
          (let st1 = st\<lparr>sessions := AList.delete devId (sessions st)\<rparr>;
               st2 = run_cleanup devId st1;
               st3 = emit (DisconnectEvent devId) st2
           in if autoReconnect_of options then
                (case map_of (adapters st3) devId of
                   None \<Rightarrow> st3
                 | Some adapter \<Rightarrow>
                     if has_reconnect adapter then reconnectDevice devId adapter st3 else st3)
              else st3\<lparr>adapters := AList.delete devId (adapters st3)\<rparr>))"

definition capacity_error :: "int \<Rightarrow> js_error" where
  "capacity_error n =
     Error (''Maximum connections ('' @ show_int n
            @ '') reached. Disconnect a device before connecting another.'')"

text \<open>
  \<open>connect()\<close> up to its \<open>await\<close>. \<open>created\<close> is what \<open>createAdapter()\<close> does when
  called: it returns an adapter or throws. The result is \<open>Some e\<close> when the promise is
  rejected before any suspension, \<open>None\<close> when the call is suspended.
\<close>

definition connect ::
  "ConnectionPoolOptions \<Rightarrow> js_error + BLEAdapter \<Rightarrow> pool_state \<Rightarrow> js_error option \<times> pool_state" where
  "connect options created st =
     (if int (length (sessions st)) + pendingConnections st \<ge> maxConnections_of options then
        (Some (capacity_error (maxConnections_of options)), st)
      else
        (let st1 = st\<lparr>pendingConnections := pendingConnections st + 1\<rparr>
         in case created of
              Inl e \<Rightarrow>
                (Some e, (call CreateAdapter st1)\<lparr>pendingConnections := pendingConnections st1 - 1\<rparr>)
            | Inr adapter \<Rightarrow>
                (None, spawn (ConnectAwait adapter)
                         (call (AdapterConnect adapter) (call CreateAdapter st1)))))"

text \<open>\<open>connect()\<close> resumed: \<open>adapter.connect\<close> resolved with \<open>session\<close>.\<close>

definition connect_resolved :: "BLEAdapter \<Rightarrow> BLEConnectedSession \<Rightarrow> pool_state \<Rightarrow> pool_state" where
  "connect_resolved adapter session st =
     (let devId = deviceId session;
          st1 = st\<lparr>adapters := AList.update devId adapter (adapters st),
                   sessions := AList.update devId session (sessions st)\<rparr>;
          st2 = register_handler devId session st1;
          st3 = emit (ConnectEvent devId session) st2
      in st3\<lparr>pendingConnections := pendingConnections st3 - 1\<rparr>)"

text \<open>\<open>connect()\<close> resumed: \<open>adapter.connect\<close> rejected; only the finally block runs.\<close>

definition connect_rejected :: "pool_state \<Rightarrow> pool_state" where
  "connect_rejected st = st\<lparr>pendingConnections := pendingConnections st - 1\<rparr>"

text \<open>
  \<open>disconnect(deviceId)\<close> up to its \<open>await\<close>. The result is \<open>True\<close> when the promise is
  already resolved (no session under the key), \<open>False\<close> when the call is suspended at
  the teardown.
\<close>

definition disconnect :: "string \<Rightarrow> pool_state \<Rightarrow> bool \<times> pool_state" where
  "disconnect devId st =
     (let st0 = st\<lparr>reconnectingDevices := reconnectingDevices st - {devId}\<rparr>
      in case map_of (sessions st0) devId of
           None \<Rightarrow> (True, st0)
         | Some session \<Rightarrow>
             (let st1 = st0\<lparr>sessions := AList.delete devId (sessions st0),
                            adapters := AList.delete devId (adapters st0)\<rparr>;
                  st2 = run_cleanup devId st1
              in (False, spawn (DisconnectAwait devId session)
                           (call (SessionDisconnect session) st2))))"

text \<open>
  \<open>disconnect(deviceId)\<close> resumed. When the teardown resolved, the event is emitted and
  the promise resolves; when it rejected, the \<open>await\<close> throws, nothing after it runs,
  and the promise rejects with the teardown's error.
\<close>

definition disconnect_resumed :: "string \<Rightarrow> js_error option \<Rightarrow> pool_state \<Rightarrow> pool_result \<times> pool_state" where
  "disconnect_resumed devId failure st =
     (case failure of
        None \<Rightarrow> (DisconnectResolved devId, emit (DisconnectEvent devId) st)
      | Some e \<Rightarrow> (DisconnectRejected devId e, st))"

text \<open>A call of \<open>disconnect\<close> with the settlement of its promise logged when it is
  already resolved.\<close>

definition disconnect_step :: "pool_state \<Rightarrow> string \<Rightarrow> pool_state" where
  "disconnect_step st devId =
     (case disconnect devId st of
        (True, st') \<Rightarrow> settle (DisconnectResolved devId) st'
      | (False, st') \<Rightarrow> st')"

text \<open>
  \<open>disconnectAll()\<close>: \<open>disconnect\<close> is called for each key in turn; each call runs up to
  its \<open>await\<close>. The promise of \<open>disconnectAll\<close> itself never rejects.
\<close>

definition disconnectAll :: "pool_state \<Rightarrow> pool_state" where
  "disconnectAll st = foldl disconnect_step st (map fst (sessions st))"

text \<open>
  What can happen to a pool: the application calls \<open>connect\<close>, \<open>disconnect\<close> or
  \<open>disconnectAll\<close>; a session fires its unexpected-disconnect callbacks; a promise that a
  suspended function awaits settles.
\<close>

datatype pool_input =
    CallConnect "js_error + BLEAdapter"
  | CallDisconnect string
  | CallDisconnectAll
  | SessionDropped nat
  | ConnectSettled BLEAdapter "js_error + BLEConnectedSession"
  | ReconnectSettled string BLEAdapter "js_error + BLEConnectedSession"
  | DiscardSettled string BLEConnectedSession
  | TeardownSettled string BLEConnectedSession "js_error option"

definition finish :: "pool_task \<Rightarrow> pool_state \<Rightarrow> pool_state" where
  "finish t st = st\<lparr>tasks := remove1 t (tasks st)\<rparr>"

text \<open>One step. A settlement of a promise that no suspended function awaits changes nothing.\<close>

fun pool_step :: "ConnectionPoolOptions \<Rightarrow> pool_state \<Rightarrow> pool_input \<Rightarrow> pool_state" where
  "pool_step options st (CallConnect created) =
     (case connect options created st of
        (Some e, st') \<Rightarrow> settle (ConnectRejected e) st'
      | (None, st') \<Rightarrow> st')"
| "pool_step options st (CallDisconnect devId) = disconnect_step st devId"
| "pool_step options st CallDisconnectAll = disconnectAll st"
| "pool_step options st (SessionDropped sid) =
     foldl (\<lambda>s h. handleDisconnect options (snd h) s) st
       (filter (\<lambda>h. fst h = sid) (handlers st))"
| "pool_step options st (ConnectSettled adapter res) =
     (if ConnectAwait adapter \<notin> set (tasks st) then st
      else case res of
             Inr session \<Rightarrow>
               settle (ConnectResolved session)
                 (connect_resolved adapter session (finish (ConnectAwait adapter) st))
           | Inl e \<Rightarrow>
               settle (ConnectRejected e) (connect_rejected (finish (ConnectAwait adapter) st)))"
| "pool_step options st (ReconnectSettled devId adapter res) =
     (if ReconnectAwait devId adapter \<notin> set (tasks st) then st
      else case res of
             Inr session \<Rightarrow>
               reconnectDevice_resolved devId session (finish (ReconnectAwait devId adapter) st)
           | Inl e \<Rightarrow>
               reconnectDevice_rejected devId e (finish (ReconnectAwait devId adapter) st))"
| "pool_step options st (DiscardSettled devId session) =
     (if DiscardAwait devId session \<notin> set (tasks st) then st
      else reconnectDevice_discarded devId (finish (DiscardAwait devId session) st))"
| "pool_step options st (TeardownSettled devId session failure) =
     (if DisconnectAwait devId session \<notin> set (tasks st) then st
      else case disconnect_resumed devId failure (finish (DisconnectAwait devId session) st) of
             (r, st') \<Rightarrow> settle r st')"

definition run_pool :: "ConnectionPoolOptions \<Rightarrow> pool_state \<Rightarrow> pool_input list \<Rightarrow> pool_state" where
  "run_pool options st inputs = foldl (pool_step options) st inputs"

text \<open>A \<open>connect()\<close> that resolves under the key \<open>k\<close>.\<close>

fun connects_key :: "string \<Rightarrow> pool_input \<Rightarrow> bool" where
  "connects_key k (ConnectSettled adapter (Inr session)) = (deviceId session = k)"
| "connects_key k inp = False"

text \<open>Sample collaborators: two adapters that can reconnect, and sessions of devices A and B.\<close>

definition adapter1 :: BLEAdapter where
  "adapter1 = \<lparr>adapter_id = 1, has_reconnect = True\<rparr>"

definition adapter2 :: BLEAdapter where
  "adapter2 = \<lparr>adapter_id = 2, has_reconnect = True\<rparr>"

definition sessionA :: BLEConnectedSession where
  "sessionA = \<lparr>deviceId = ''A'', session_id = 1, has_onDisconnect = True\<rparr>"

definition sessionB :: BLEConnectedSession where
  "sessionB = \<lparr>deviceId = ''B'', session_id = 2, has_onDisconnect = True\<rparr>"

definition sessionA2 :: BLEConnectedSession where
  "sessionA2 = \<lparr>deviceId = ''A'', session_id = 3, has_onDisconnect = True\<rparr>"

definition sessionA3 :: BLEConnectedSession where
  "sessionA3 = \<lparr>deviceId = ''A'', session_id = 4, has_onDisconnect = True\<rparr>"

definition pool_of_one :: ConnectionPoolOptions where
  "pool_of_one = \<lparr>maxConnections = Some 1, autoReconnect = Some True\<rparr>"

definition pool_default :: ConnectionPoolOptions where
  "pool_default = \<lparr>maxConnections = None, autoReconnect = Some True\<rparr>"

text \<open>Device A connects and drops, so that its auto-reconnect is in flight.\<close>

definition reconnect_in_flight :: "pool_input list" where
  "reconnect_in_flight =
     [CallConnect (Inr adapter1), ConnectSettled adapter1 (Inr sessionA), SessionDropped 1]"

text \<open>Meanwhile the application connects to device B.\<close>

definition connect_B :: "pool_input list" where
  "connect_B = [CallConnect (Inr adapter2), ConnectSettled adapter2 (Inr sessionB)]"

text \<open>Device A connects; \<open>disconnect('A')\<close> is called and the teardown rejects.\<close>

definition teardown_error :: js_error where
  "teardown_error = Error ''Disconnect failed''"

definition teardown_rejects :: "pool_input list" where
  "teardown_rejects =
     [CallConnect (Inr adapter1), ConnectSettled adapter1 (Inr sessionA),
      CallDisconnect ''A'', TeardownSettled ''A'' sessionA (Some teardown_error)]"

text \<open>The same with a teardown that resolves.\<close>

definition teardown_resolves :: "pool_input list" where
  "teardown_resolves =
     [CallConnect (Inr adapter1), ConnectSettled adapter1 (Inr sessionA),
      CallDisconnect ''A'', TeardownSettled ''A'' sessionA None]"

text \<open>A pool of capacity 2 with one live session and one connect in flight.\<close>

definition pool_of_two :: ConnectionPoolOptions where
  "pool_of_two = \<lparr>maxConnections = Some 2, autoReconnect = None\<rparr>"

definition one_live_one_pending :: "pool_input list" where
  "one_live_one_pending =
     [CallConnect (Inr adapter1), ConnectSettled adapter1 (Inr sessionA),
      CallConnect (Inr adapter2)]"

text \<open>
  The key \<open>k\<close> has neither a session nor the reconnecting marker: the state in which a
  reconnect that resolves for \<open>k\<close> is discarded.
\<close>

definition unmarked :: "string \<Rightarrow> pool_state \<Rightarrow> bool" where
  "unmarked k st \<longleftrightarrow> k \<notin> reconnectingDevices st \<and> map_of (sessions st) k = None"

text \<open>
  Device A connects and drops; while its auto-reconnect is in flight, \<open>connect()\<close>
  admits device B; then the reconnect of A resolves.
\<close>

definition reconnect_overfills :: "pool_input list" where
  "reconnect_overfills =
     reconnect_in_flight @ connect_B @ [ReconnectSettled ''A'' adapter1 (Inr sessionA2)]"

text \<open>
  Device A connects and drops; \<open>disconnect('A')\<close> is called while the reconnect is in
  flight.
\<close>

definition disconnect_during_reconnect :: "pool_input list" where
  "disconnect_during_reconnect = reconnect_in_flight @ [CallDisconnect ''A'']"

text \<open>
  Then the application connects to A again and that session drops too, which starts a
  second reconnect; then the first reconnect resolves.
\<close>

definition disconnect_then_reconnect_twice :: "pool_input list" where
  "disconnect_then_reconnect_twice =
     disconnect_during_reconnect
     @ [CallConnect (Inr adapter2), ConnectSettled adapter2 (Inr sessionA2), SessionDropped 3]
     @ [ReconnectSettled ''A'' adapter1 (Inr sessionA3)]"

text \<open>Device A connects.\<close>

definition connected_to_A :: "pool_input list" where
  "connected_to_A = [CallConnect (Inr adapter1), ConnectSettled adapter1 (Inr sessionA)]"

text \<open>Retry options with \<open>maxAttempts = 0\<close>.\<close>

definition zero_attempts :: RetryOptions where
  "zero_attempts = sample_options\<lparr>maxAttempts := Some 0\<rparr>"

section \<open>The state machine: transition table and reentrancy guard\<close>

lemma machine_with_fields:
  "state (machine_with from cbs) = from"
  "isTransitioning (machine_with from cbs) = False"
  "callbacks (machine_with from cbs) = cbs"
  "sm_trace (machine_with from cbs) = []"
proof -
  have "\<And>m. foldl onTransition m cbs = m\<lparr>callbacks := callbacks m @ cbs\<rparr>"
    by (induction cbs) (simp_all add: onTransition_def)
  then have e: "machine_with from cbs = (createStateMachine from)\<lparr>callbacks := cbs\<rparr>"
    by (simp add: machine_with_def createStateMachine_def)
  show "state (machine_with from cbs) = from"
    "isTransitioning (machine_with from cbs) = False"
    "callbacks (machine_with from cbs) = cbs"
    "sm_trace (machine_with from cbs) = []"
    by (simp_all add: e createStateMachine_def)
qed

lemma canTransition_table:
  "canTransition m to \<longleftrightarrow> (state m, to) \<in> spec_transition_table"
  by (cases "state m"; cases to) (simp_all add: canTransition_def spec_transition_table_def)

lemma transition_while_transitioning:
  "isTransitioning m \<Longrightarrow> transition_d d m to = Some (Inl (reentrant_error (state m) to), m)"
  by (cases d) simp_all

lemma inner_calls_append:
  "inner_transition_calls (xs @ ys) = inner_transition_calls xs @ inner_transition_calls ys"
  by (induction xs rule: inner_transition_calls.induct) simp_all

lemma observed_states_append:
  "observed_states (xs @ ys) = observed_states xs @ observed_states ys"
  by (induction xs rule: observed_states.induct) simp_all

lemma guarded_obs_snoc:
  "guarded_obs s (obs @ [ob]) \<longleftrightarrow> guarded_obs s obs \<and> guarded_obs s [ob]"
  by (auto simp: guarded_obs_def inner_calls_append observed_states_append)

lemma in_loop_log:
  "in_loop s cbs m \<Longrightarrow> guarded_obs s [ob] \<Longrightarrow> in_loop s cbs (log_obs ob m)"
  by (simp add: in_loop_def log_obs_def guarded_obs_snoc)

lemma run_callback_in_loop:
  "in_loop s cbs m \<Longrightarrow> \<exists>eo m'. run_callback (transition_d d) acts m = Some (eo, m') \<and> in_loop s cbs m'"
proof (induction acts arbitrary: m)
  case Nil
  then show ?case by simp
next
  case (Cons a acts)
  have st: "state m = s" and tr: "isTransitioning m" using Cons.prems by (simp_all add: in_loop_def)
  show ?case
  proof (cases a)
    case (CallTransition t)
    have "in_loop s cbs (log_obs (TransitionThrew t (reentrant_error s t)) m)"
      by (rule in_loop_log[OF Cons.prems]) (simp add: guarded_obs_def)
    then show ?thesis using CallTransition tr st
      by (simp add: transition_while_transitioning)
  next
    case (TryTransition t)
    have "in_loop s cbs (log_obs (TransitionThrew t (reentrant_error s t)) m)"
      by (rule in_loop_log[OF Cons.prems]) (simp add: guarded_obs_def)
    from Cons.IH[OF this] show ?thesis using TryTransition tr st
      by (simp add: transition_while_transitioning)
  next
    case CallGetState
    have "in_loop s cbs (log_obs (GetStateReturned (getState m)) m)"
      by (rule in_loop_log[OF Cons.prems]) (simp add: guarded_obs_def getState_def st)
    from Cons.IH[OF this] show ?thesis using CallGetState by simp
  next
    case (CallCanTransition t)
    have "in_loop s cbs (log_obs (CanTransitionReturned t (canTransition m t)) m)"
      by (rule in_loop_log[OF Cons.prems]) (simp add: guarded_obs_def)
    from Cons.IH[OF this] show ?thesis using CallCanTransition by simp
  next
    case (Throw e)
    then show ?thesis using Cons.prems by simp
  qed
qed

lemma run_callbacks_in_loop:
  "in_loop s cbs0 m \<Longrightarrow> \<exists>m'. run_callbacks (transition_d d) i cbs from to m = Some m' \<and> in_loop s cbs0 m'"
proof (induction cbs arbitrary: m i)
  case Nil
  then show ?case by simp
next
  case (Cons cb cbs)
  have "in_loop s cbs0 (log_obs (CallbackInvoked i from to) m)"
    by (rule in_loop_log[OF Cons.prems]) (simp add: guarded_obs_def)
  from run_callback_in_loop[OF this, of d "cb from to"]
  obtain eo m1 where r: "run_callback (transition_d d) (cb from to) (log_obs (CallbackInvoked i from to) m) = Some (eo, m1)"
    and l: "in_loop s cbs0 m1" by blast
  show ?case
  proof (cases eo)
    case None
    with r Cons.IH[OF l, of "Suc i"] show ?thesis by simp
  next
    case (Some e)
    have "in_loop s cbs0 (log_obs (ConsoleError e) m1)"
      by (rule in_loop_log[OF l]) (simp add: guarded_obs_def)
    from Cons.IH[OF this, of "Suc i"] r Some show ?thesis by simp
  qed
qed

lemma transition_valid:
  assumes "canTransition (machine_with from cbs) to"
  shows "\<exists>m'. transition_d (Suc d) (machine_with from cbs) to = Some (Inr (), m')
           \<and> state m' = to \<and> \<not> isTransitioning m' \<and> callbacks m' = cbs \<and> guarded_obs to (sm_trace m')"
proof -
  let ?m = "machine_with from cbs"
  let ?m1 = "?m\<lparr>state := to, isTransitioning := True\<rparr>"
  have "in_loop to cbs ?m1"
    by (simp add: in_loop_def machine_with_fields guarded_obs_def)
  from run_callbacks_in_loop[OF this, of d 0 cbs "from" to]
  obtain m2 where r: "run_callbacks (transition_d d) 0 cbs from to ?m1 = Some m2" and l: "in_loop to cbs m2"
    by blast
  show ?thesis using assms r l
    by (simp add: machine_with_fields in_loop_def Let_def)
qed

lemma transition_invalid:
  assumes "\<not> canTransition (machine_with from cbs) to"
  shows "transition_d d (machine_with from cbs) to = Some (Inl (invalid_transition_error from to), machine_with from cbs)"
  using assms by (cases d) (simp_all add: machine_with_fields)

lemma errors_distinct: "reentrant_error a b \<noteq> invalid_transition_error a' b'"
  by (simp add: reentrant_error_def invalid_transition_error_def Error_def)

text \<open>
  Claim C8. For every pair \<open>(from, to)\<close> of connection states and every list of registered
  callbacks, with the machine at rest in \<open>from\<close>: \<open>transition(to)\<close> returns normally
  if and only if \<open>(from, to)\<close> is in the table of the specification, and then
  \<open>getState()\<close> is \<open>to\<close>; when it throws, the machine is exactly as before and
  \<open>getState()\<close> is still \<open>from\<close>; the call always returns or throws; and
  \<open>canTransition(to)\<close>, a function of the machine alone, is membership in that table.
\<close>

theorem transition_iff_table:
  "((\<exists>m'. transition_d (Suc d) (machine_with from cbs) to = Some (Inr (), m'))
       \<longleftrightarrow> (from, to) \<in> spec_transition_table)
   \<and> (\<forall>m'. transition_d (Suc d) (machine_with from cbs) to = Some (Inr (), m') \<longrightarrow> getState m' = to)
   \<and> (\<forall>e m'. transition_d (Suc d) (machine_with from cbs) to = Some (Inl e, m')
         \<longrightarrow> m' = machine_with from cbs \<and> getState m' = from)
   \<and> transition_d (Suc d) (machine_with from cbs) to \<noteq> None
   \<and> canTransition (machine_with from cbs) to = ((from, to) \<in> spec_transition_table)
   \<and> (\<forall>m. canTransition m to = ((getState m, to) \<in> spec_transition_table))"
proof (cases "canTransition (machine_with from cbs) to")
  case True
  from transition_valid[OF True, of d] obtain m' where
    "transition_d (Suc d) (machine_with from cbs) to = Some (Inr (), m')" "state m' = to" by blast
  then show ?thesis using True canTransition_table[of "machine_with from cbs" to]
    by (simp add: machine_with_fields getState_def canTransition_table)
next
  case False
  from transition_invalid[OF False, of "Suc d"] show ?thesis
    using False canTransition_table[of "machine_with from cbs" to]
    by (simp add: machine_with_fields getState_def canTransition_table)
qed

text \<open>Witness for C8: an allowed and a refused transition of a machine with a callback.\<close>

theorem transition_iff_table_witness:
  "(\<exists>m'. transition_d (Suc 0) (machine_with Disconnected [cb_demo]) Connecting = Some (Inr (), m'))
   \<and> (Disconnected, Connecting) \<in> spec_transition_table
   \<and> (\<nexists>m'. transition_d (Suc 0) (machine_with Disconnected [cb_demo]) Connected = Some (Inr (), m'))
   \<and> (Disconnected, Connected) \<notin> spec_transition_table"
proof -
  have t: "(Disconnected, Connecting) \<in> spec_transition_table"
    and f: "(Disconnected, Connected) \<notin> spec_transition_table"
    by (simp_all add: spec_transition_table_def)
  from transition_iff_table[of 0 Disconnected "[cb_demo]" Connecting]
    transition_iff_table[of 0 Disconnected "[cb_demo]" Connected] t f
  show ?thesis by blast
qed

text \<open>
  Claim C9. When \<open>transition(to)\<close> is allowed, it returns normally with \<open>getState()\<close>
  equal to \<open>to\<close> and the guard flag cleared, whatever the callbacks do: every call of
  \<open>transition\<close> made by a callback during the loop threw the reentrancy error, and every
  \<open>getState()\<close> a callback read returned \<open>to\<close>. In general a call of
  \<open>transition\<close> while the flag is set throws the reentrancy error and returns the
  machine unchanged, and the reentrancy error is never equal to an invalid-transition
  error (both are plain \<open>Error\<close>s; their messages differ).
\<close>

theorem transition_reentrancy_guard:
  assumes "canTransition (machine_with from cbs) to"
  shows "(\<exists>m'. transition_d (Suc d) (machine_with from cbs) to = Some (Inr (), m')
            \<and> getState m' = to \<and> \<not> isTransitioning m'
            \<and> (\<forall>(t, r) \<in> set (inner_transition_calls (sm_trace m')).
                  r = Some (reentrant_error to t))
            \<and> (\<forall>s \<in> set (observed_states (sm_trace m')). s = to))
         \<and> (\<forall>m t k. isTransitioning m \<longrightarrow>
                transition_d k m t = Some (Inl (reentrant_error (getState m) t), m))
         \<and> (\<forall>a b a' b'. reentrant_error a b \<noteq> invalid_transition_error a' b')"
proof -
  from transition_valid[OF assms, of d] obtain m' where
    "transition_d (Suc d) (machine_with from cbs) to = Some (Inr (), m')"
    "state m' = to" "\<not> isTransitioning m'" "guarded_obs to (sm_trace m')" by blast
  then show ?thesis
    by (simp add: getState_def guarded_obs_def transition_while_transitioning errors_distinct)
qed

lemma demo_run:
  "transition_d (Suc 0) (machine_with Disconnected [cb_demo]) Connecting =
     Some (Inr (), \<lparr>state = Connecting, callbacks = [cb_demo], isTransitioning = False,
       sm_trace = [CallbackInvoked 0 Disconnected Connecting,
                   GetStateReturned Connecting,
                   TransitionThrew Disconnected (reentrant_error Connecting Disconnected),
                   GetStateReturned Connecting,
                   TransitionThrew Connected (reentrant_error Connecting Connected),
                   ConsoleError (reentrant_error Connecting Connected)]\<rparr>)"
  by (simp add: machine_with_def createStateMachine_def onTransition_def canTransition_def
        cb_demo_def log_obs_def getState_def)

text \<open>
  Witness for C9: the sample callback calls \<open>transition\<close> twice during
  disconnected \<open>\<rightarrow>\<close> connecting; both calls throw the reentrancy error.
\<close>

theorem transition_reentrancy_guard_witness:
  "canTransition (machine_with Disconnected [cb_demo]) Connecting
   \<and> (\<exists>m'. transition_d (Suc 0) (machine_with Disconnected [cb_demo]) Connecting = Some (Inr (), m')
          \<and> getState m' = Connecting
          \<and> inner_transition_calls (sm_trace m') =
                [(Disconnected, Some (reentrant_error Connecting Disconnected)),
                 (Connected, Some (reentrant_error Connecting Connected))]
          \<and> observed_states (sm_trace m') = [Connecting, Connecting])"
proof -
  have h: "canTransition (machine_with Disconnected [cb_demo]) Connecting"
    by (simp add: canTransition_def machine_with_fields)
  from transition_reentrancy_guard[OF h, of 0] h show ?thesis
    unfolding demo_run by (simp add: getState_def)
qed

section \<open>The operation queue: serialization per key\<close>

lemma length_filter_update:
  "i < length xs \<Longrightarrow>
     length (filter P (xs[i := x])) + (if P (xs ! i) then 1 else 0)
       = length (filter P xs) + (if P x then 1 else 0)"
proof (induction xs arbitrary: i)
  case Nil
  then show ?case by simp
next
  case (Cons a xs)
  then show ?case by (cases i) auto
qed

lemma count_open_update_same:
  assumes "i < length os" "op_key o' = op_key (os ! i)"
    and "op_status o' = Done \<longleftrightarrow> op_status (os ! i) = Done"
  shows "count_open k (os[i := o']) = count_open k os"
  using length_filter_update[OF assms(1), of "\<lambda>opn. op_key opn = k \<and> op_status opn \<noteq> Done" o'] assms(2,3)
  by (auto simp: count_open_def split: if_splits)

lemma count_open_update_done:
  assumes "i < length os" "op_key o' = op_key (os ! i)"
    and "op_status (os ! i) \<noteq> Done" "op_status o' = Done"
  shows "count_open k (os[i := o']) + (if op_key (os ! i) = k then 1 else 0) = count_open k os"
  using length_filter_update[OF assms(1), of "\<lambda>opn. op_key opn = k \<and> op_status opn \<noteq> Done" o'] assms(2-4)
  by (auto simp: count_open_def split: if_splits)

lemma count_open_zero_iff:
  "count_open k os = 0 \<longleftrightarrow> (\<forall>j < length os. op_key (os ! j) = k \<longrightarrow> op_status (os ! j) = Done)"
  by (auto simp: count_open_def filter_empty_conv all_set_conv_all_nth)

lemma count_open_snoc:
  "count_open k (os @ [opn]) = count_open k os + (if op_key opn = k \<and> op_status opn \<noteq> Done then 1 else 0)"
  by (simp add: count_open_def)

lemma inv_chain_update:
  assumes "inv_chain st" "i < length (ops st)"
    and "op_key o' = op_key (ops st ! i)" "op_pred o' = op_pred (ops st ! i)"
    and "op_status (ops st ! i) = Done \<longrightarrow> op_status o' = Done"
    and "ops st' = (ops st)[i := o']"
  shows "inv_chain st'"
  unfolding inv_chain_def
proof (intro allI impI)
  fix a assume a: "a < length (ops st')"
  then have a': "a < length (ops st)" using assms(6) by simp
  have key: "\<And>b. b < length (ops st) \<Longrightarrow> op_key (ops st' ! b) = op_key (ops st ! b)"
    and pred: "\<And>b. b < length (ops st) \<Longrightarrow> op_pred (ops st' ! b) = op_pred (ops st ! b)"
    and dn: "\<And>b. b < length (ops st) \<Longrightarrow> op_status (ops st ! b) = Done \<Longrightarrow> op_status (ops st' ! b) = Done"
    using assms(2-6) by (auto simp: nth_list_update)
  from assms(1) a' have old:
    "case op_pred (ops st ! a) of
       None \<Rightarrow> (\<forall>j < a. op_key (ops st ! j) = op_key (ops st ! a) \<longrightarrow> op_status (ops st ! j) = Done)
     | Some p \<Rightarrow> p < a \<and> op_key (ops st ! p) = op_key (ops st ! a)
                 \<and> (\<forall>j < a. op_key (ops st ! j) = op_key (ops st ! a) \<longrightarrow> j \<le> p)"
    by (simp add: inv_chain_def)
  show "case op_pred (ops st' ! a) of
       None \<Rightarrow> (\<forall>j < a. op_key (ops st' ! j) = op_key (ops st' ! a) \<longrightarrow> op_status (ops st' ! j) = Done)
     | Some p \<Rightarrow> p < a \<and> op_key (ops st' ! p) = op_key (ops st' ! a)
                 \<and> (\<forall>j < a. op_key (ops st' ! j) = op_key (ops st' ! a) \<longrightarrow> j \<le> p)"
  proof (cases "op_pred (ops st ! a)")
    case None
    with old have "\<forall>j < a. op_key (ops st ! j) = op_key (ops st ! a) \<longrightarrow> op_status (ops st ! j) = Done"
      by simp
    then show ?thesis using None a' by (simp add: key pred dn)
  next
    case (Some p)
    with old have "p < a" "op_key (ops st ! p) = op_key (ops st ! a)"
      "\<forall>j < a. op_key (ops st ! j) = op_key (ops st ! a) \<longrightarrow> j \<le> p" by simp_all
    then show ?thesis using Some a' by (simp add: key pred)
  qed
qed

lemma chain_settled_update:
  assumes "chain_settled st p" "i < length (ops st)"
    and "op_status (ops st ! i) = Done \<longrightarrow> op_status o' = Done"
    and "ops st' = (ops st)[i := o']"
  shows "chain_settled st' p"
  using assms by (auto simp: chain_settled_def nth_list_update split: option.splits)

lemma inv_started_update:
  assumes "inv_started st" "i < length (ops st)"
    and "op_pred o' = op_pred (ops st ! i)"
    and "op_status (ops st ! i) = Done \<longrightarrow> op_status o' = Done"
    and "op_status o' \<noteq> Waiting \<longrightarrow> chain_settled st (op_pred (ops st ! i))"
    and "ops st' = (ops st)[i := o']"
  shows "inv_started st'"
  unfolding inv_started_def
proof (intro allI impI)
  fix a assume a: "a < length (ops st')" and w: "op_status (ops st' ! a) \<noteq> Waiting"
  then have a': "a < length (ops st)" using assms(6) by simp
  have "chain_settled st (op_pred (ops st ! a))"
  proof (cases "a = i")
    case True
    then show ?thesis using w assms(2,5,6) by simp
  next
    case False
    then show ?thesis using w assms(1,6) a' by (simp add: inv_started_def)
  qed
  moreover have "op_pred (ops st' ! a) = op_pred (ops st ! a)"
    using assms(2,3,6) by (cases "a = i") simp_all
  ultimately show "chain_settled st' (op_pred (ops st' ! a))"
    using chain_settled_update[OF _ assms(2,4,6)] by simp
qed

lemma inv_tail_update:
  assumes "inv_tail st" "i < length (ops st)"
    and "op_key o' = op_key (ops st ! i)"
    and "op_status o' = Done \<longleftrightarrow> op_status (ops st ! i) = Done"
    and "ops st' = (ops st)[i := o']"
    and "cleared st' = cleared st" "queues st' = queues st" "queueDepths st' = queueDepths st"
  shows "inv_tail st'"
proof -
  have key: "\<And>b. b < length (ops st) \<Longrightarrow> op_key (ops st' ! b) = op_key (ops st ! b)"
    using assms(2-5) by (auto simp: nth_list_update)
  have cnt: "\<And>k. count_open k (ops st') = count_open k (ops st)"
    using count_open_update_same[OF assms(2,3,4)] assms(5) by simp
  have len: "length (ops st') = length (ops st)" using assms(5) by simp
  have t: "\<And>k. tail_ok st' k = tail_ok st k"
    unfolding tail_ok_def assms(7) cnt len
    by (auto simp: key split: option.splits)
  have d: "\<And>k. depth_ok st' k = depth_ok st k"
    unfolding depth_ok_def assms(8) cnt by simp
  show ?thesis using assms(1) unfolding inv_tail_def assms(6) t d .
qed

lemma inv_log_update:
  assumes "inv_log st" "i < length (ops st)"
    and "op_status o' = Waiting \<longrightarrow> op_status (ops st ! i) = Waiting"
    and "ops st' = (ops st)[i := o']"
    and "set (invoked st') \<subseteq> insert i (set (invoked st))"
    and "i \<in> set (invoked st') \<longrightarrow> op_status o' \<noteq> Waiting"
  shows "inv_log st'"
  unfolding inv_log_def
proof
  fix a assume a: "a \<in> set (invoked st')"
  show "a < length (ops st') \<and> op_status (ops st' ! a) \<noteq> Waiting"
  proof (cases "a = i")
    case True
    then show ?thesis using a assms(2,4,6) by simp
  next
    case False
    with a assms(5) have "a \<in> set (invoked st)" by auto
    with assms(1) have "a < length (ops st)" "op_status (ops st ! a) \<noteq> Waiting"
      by (simp_all add: inv_log_def)
    then show ?thesis using False assms(4) by simp
  qed
qed


lemma deliver_fields [simp]:
  "op_key (deliver res opn) = op_key opn" "op_pred (deliver res opn) = op_pred opn"
  "op_status (deliver res opn) = Delivered"
  by (simp_all add: deliver_def)

lemma queue_inv_delivered:
  assumes "queue_inv st" "i < length (ops st)" "op_status (ops st ! i) \<noteq> Done"
    and "chain_settled st (op_pred (ops st ! i))"
  shows "queue_inv (st\<lparr>ops := (ops st)[i := deliver res (ops st ! i)]\<rparr>)"
proof -
  let ?st' = "st\<lparr>ops := (ops st)[i := deliver res (ops st ! i)]\<rparr>"
  have o: "ops ?st' = (ops st)[i := deliver res (ops st ! i)]" by simp
  have "inv_chain ?st'"
    by (rule inv_chain_update[OF _ assms(2) _ _ _ o]) (use assms in \<open>simp_all add: queue_inv_def\<close>)
  moreover have "inv_started ?st'"
    by (rule inv_started_update[OF _ assms(2) _ _ _ o]) (use assms in \<open>simp_all add: queue_inv_def\<close>)
  moreover have "inv_tail ?st'"
    by (rule inv_tail_update[OF _ assms(2) _ _ o]) (use assms in \<open>simp_all add: queue_inv_def\<close>)
  moreover have "inv_log ?st'"
    by (rule inv_log_update[OF _ assms(2) _ o]) (use assms in \<open>auto simp: queue_inv_def\<close>)
  ultimately show ?thesis by (simp add: queue_inv_def)
qed

lemma queue_inv_settle:
  assumes "queue_inv st"
  shows "queue_inv (settle_op i res st)"
proof (cases "i < length (ops st) \<and> op_status (ops st ! i) = Running")
  case True
  then have "chain_settled st (op_pred (ops st ! i))"
    using assms by (simp add: queue_inv_def inv_started_def)
  from queue_inv_delivered[OF assms _ _ this, of res] True show ?thesis
    by (simp add: settle_op_def)
next
  case False
  then show ?thesis using assms by (auto simp: settle_op_def)
qed

lemma queue_inv_start:
  assumes "queue_inv st"
  shows "queue_inv (start i st)"
proof (cases "startable st i")
  case False
  then show ?thesis using assms by (simp add: start_def)
next
  case True
  then have i: "i < length (ops st)" and w: "op_status (ops st ! i) = Waiting"
    and c: "chain_settled st (op_pred (ops st ! i))"
    by (simp_all add: startable_def)
  have nd: "op_status (ops st ! i) \<noteq> Done" using w by simp
  show ?thesis
  proof (cases "signal_aborted (q_signal st) \<or> cleared st")
    case True
    with \<open>startable st i\<close> queue_inv_delivered[OF assms i nd c] show ?thesis
      by (auto simp: start_def)
  next
    case False
    let ?o = "(ops st ! i)\<lparr>op_status := Running\<rparr>"
    let ?st' = "st\<lparr>ops := (ops st)[i := ?o], invoked := invoked st @ [i]\<rparr>"
    have o: "ops ?st' = (ops st)[i := ?o]" by simp
    have "inv_chain ?st'"
      by (rule inv_chain_update[OF _ i _ _ _ o]) (use assms w in \<open>simp_all add: queue_inv_def\<close>)
    moreover have "inv_started ?st'"
      by (rule inv_started_update[OF _ i _ _ _ o]) (use assms w c in \<open>simp_all add: queue_inv_def\<close>)
    moreover have "inv_tail ?st'"
      by (rule inv_tail_update[OF _ i _ _ o]) (use assms w in \<open>simp_all add: queue_inv_def\<close>)
    moreover have "inv_log ?st'"
      by (rule inv_log_update[OF _ i _ o]) (use assms w in \<open>auto simp: queue_inv_def\<close>)
    ultimately show ?thesis using False \<open>startable st i\<close>
      by (simp add: queue_inv_def start_def)
  qed
qed


lemma inv_tail_finalize:
  assumes "inv_tail st" "i < length (ops st)" "op_status (ops st ! i) = Delivered"
  shows "inv_tail (finalize i st)"
proof (cases "cleared st")
  case True
  then show ?thesis by (simp add: inv_tail_def finalize_def Let_def)
next
  case False
  let ?k = "op_key (ops st ! i)"
  let ?o = "(ops st ! i)\<lparr>op_status := Done\<rparr>"
  have cnt: "\<And>k. count_open k ((ops st)[i := ?o]) + (if ?k = k then 1 else 0) = count_open k (ops st)"
    using count_open_update_done[OF assms(2), of ?o] assms(3) by simp
  have key: "\<And>b. op_key ((ops st)[i := ?o] ! b) = op_key (ops st ! b)"
    using assms(2) by (simp add: nth_list_update)
  have ok: "\<And>k. tail_ok st k" "\<And>k. depth_ok st k"
    using assms(1) False by (simp_all add: inv_tail_def)
  have c1: "count_open ?k (ops st) \<noteq> 0" using cnt[of ?k] by simp
  then have d: "map_of (queueDepths st) ?k = Some (int (count_open ?k (ops st)))"
    using ok(2)[of ?k] by (simp add: depth_ok_def)
  show ?thesis
    unfolding inv_tail_def
  proof (intro impI allI conjI)
    fix k
    show "depth_ok (finalize i st) k"
      using ok(2)[of k] cnt[of k] d assms(2,3)
      by (cases "k = ?k")
         (auto simp: depth_ok_def finalize_def Let_def AList.delete_conv' AList.update_conv')
    show "tail_ok (finalize i st) k"
      using ok(1)[of k] cnt[of k] d assms(2,3) c1
      by (cases "k = ?k")
         (auto simp: tail_ok_def finalize_def Let_def AList.delete_conv' key split: option.splits)
  qed
qed

lemma queue_inv_finalize:
  assumes "queue_inv st"
  shows "queue_inv (finalize i st)"
proof (cases "i < length (ops st) \<and> op_status (ops st ! i) = Delivered")
  case False
  then show ?thesis using assms by (auto simp: finalize_def)
next
  case True
  then have i: "i < length (ops st)" and dl: "op_status (ops st ! i) = Delivered" by simp_all
  let ?o = "(ops st ! i)\<lparr>op_status := Done\<rparr>"
  have o: "ops (finalize i st) = (ops st)[i := ?o]"
    using True by (simp add: finalize_def Let_def)
  have inv: "invoked (finalize i st) = invoked st"
    using True by (simp add: finalize_def Let_def)
  have c: "chain_settled st (op_pred (ops st ! i))"
    using assms True by (simp add: queue_inv_def inv_started_def)
  have "inv_chain (finalize i st)"
    by (rule inv_chain_update[OF _ i _ _ _ o]) (use assms in \<open>simp_all add: queue_inv_def\<close>)
  moreover have "inv_started (finalize i st)"
    by (rule inv_started_update[OF _ i _ _ _ o]) (use assms c in \<open>simp_all add: queue_inv_def\<close>)
  moreover have "inv_tail (finalize i st)"
    by (rule inv_tail_finalize[OF _ i dl]) (use assms in \<open>simp add: queue_inv_def\<close>)
  moreover have "inv_log (finalize i st)"
    by (rule inv_log_update[OF _ i _ o]) (use assms inv in \<open>auto simp: queue_inv_def\<close>)
  ultimately show ?thesis by (simp add: queue_inv_def)
qed


lemma chain_settled_snoc:
  "chain_settled st p \<Longrightarrow> ops st' = ops st @ [opn] \<Longrightarrow> chain_settled st' p"
  by (auto simp: chain_settled_def nth_append split: option.splits)

lemma enqueue_accepted:
  assumes "\<not> signal_aborted (q_signal st)" "\<not> cleared st"
  shows "ops (snd (enqueue k st)) = ops st @ [\<lparr>op_key = k, op_pred = map_of (queues st) k, op_status = Waiting, op_result = Pending\<rparr>]"
    and "queues (snd (enqueue k st)) = AList.update k (length (ops st)) (queues st)"
    and "queueDepths (snd (enqueue k st)) = AList.update k ((case map_of (queueDepths st) k of Some d \<Rightarrow> d | None \<Rightarrow> 0) + 1) (queueDepths st)"
    and "cleared (snd (enqueue k st)) = cleared st" and "invoked (snd (enqueue k st)) = invoked st"
    and "fst (enqueue k st) = Inr (length (ops st))"
  using assms by (simp_all add: enqueue_def Let_def)

lemma enqueue_inv_chain:
  assumes "inv_chain st" "tail_ok st k" "ops st' = ops st @ [\<lparr>op_key = k, op_pred = map_of (queues st) k, op_status = Waiting, op_result = Pending\<rparr>]"
  shows "inv_chain st'"
  unfolding inv_chain_def
proof (intro allI impI)
  let ?n = "length (ops st)"
  fix i assume "i < length (ops st')"
  then consider "i < ?n" | "i = ?n" using assms(3) by (auto simp: less_Suc_eq)
  then show "case op_pred (ops st' ! i) of
        None \<Rightarrow> \<forall>j<i. op_key (ops st' ! j) = op_key (ops st' ! i) \<longrightarrow> op_status (ops st' ! j) = Done
      | Some p \<Rightarrow> p < i \<and> op_key (ops st' ! p) = op_key (ops st' ! i)
                  \<and> (\<forall>j<i. op_key (ops st' ! j) = op_key (ops st' ! i) \<longrightarrow> j \<le> p)"
  proof cases
    case 1
    have old: "\<And>b. b \<le> i \<Longrightarrow> ops st' ! b = ops st ! b" using 1 by (simp add: assms(3) nth_append)
    from assms(1) 1 have c: "case op_pred (ops st ! i) of
        None \<Rightarrow> \<forall>j<i. op_key (ops st ! j) = op_key (ops st ! i) \<longrightarrow> op_status (ops st ! j) = Done
      | Some p \<Rightarrow> p < i \<and> op_key (ops st ! p) = op_key (ops st ! i)
                  \<and> (\<forall>j<i. op_key (ops st ! j) = op_key (ops st ! i) \<longrightarrow> j \<le> p)"
      by (simp add: inv_chain_def)
    show ?thesis
    proof (cases "op_pred (ops st ! i)")
      case None
      with c show ?thesis by (simp add: old)
    next
      case (Some p)
      with c show ?thesis by (simp add: old)
    qed
  next
    case 2
    have old: "\<And>b. b < ?n \<Longrightarrow> ops st' ! b = ops st ! b" by (simp add: assms(3) nth_append)
    have new: "ops st' ! ?n = \<lparr>op_key = k, op_pred = map_of (queues st) k, op_status = Waiting, op_result = Pending\<rparr>"
      by (simp add: assms(3))
    show ?thesis
    proof (cases "map_of (queues st) k")
      case None
      with assms(2) have "count_open k (ops st) = 0" by (simp add: tail_ok_def)
      then have "\<forall>j < ?n. op_key (ops st ! j) = k \<longrightarrow> op_status (ops st ! j) = Done"
        by (simp add: count_open_zero_iff)
      then show ?thesis unfolding 2 new using None by (simp add: old)
    next
      case (Some t)
      with assms(2) have "t < ?n" "op_key (ops st ! t) = k"
        "\<forall>j < ?n. op_key (ops st ! j) = k \<longrightarrow> j \<le> t" by (simp_all add: tail_ok_def)
      then show ?thesis unfolding 2 new using Some by (simp add: old)
    qed
  qed
qed

lemma enqueue_inv_started:
  assumes "inv_started st" "ops st' = ops st @ [\<lparr>op_key = k, op_pred = p, op_status = Waiting, op_result = Pending\<rparr>]"
  shows "inv_started st'"
  unfolding inv_started_def
proof (intro allI impI)
  let ?n = "length (ops st)"
  fix i assume i: "i < length (ops st')" and w: "op_status (ops st' ! i) \<noteq> Waiting"
  have "i \<noteq> ?n" using w by (auto simp: assms(2))
  then have l: "i < ?n" using i by (simp add: assms(2))
  then have e: "ops st' ! i = ops st ! i" by (simp add: assms(2) nth_append)
  with w l assms(1) have "chain_settled st (op_pred (ops st ! i))"
    by (simp add: inv_started_def)
  from chain_settled_snoc[OF this assms(2)] show "chain_settled st' (op_pred (ops st' ! i))"
    by (simp add: e)
qed

lemma enqueue_depth_ok:
  assumes "depth_ok st k'" "ops st' = ops st @ [\<lparr>op_key = k, op_pred = p, op_status = Waiting, op_result = Pending\<rparr>]"
    and "queueDepths st' = AList.update k ((case map_of (queueDepths st) k of Some d \<Rightarrow> d | None \<Rightarrow> 0) + 1) (queueDepths st)"
  shows "depth_ok st' k'"
proof -
  have cnt: "count_open k' (ops st') = count_open k' (ops st) + (if k = k' then 1 else 0)"
    by (simp add: assms(2) count_open_snoc)
  show ?thesis
  proof (cases "k' = k")
    case True
    with assms(1) cnt show ?thesis
      by (simp add: depth_ok_def assms(3) AList.update_conv')
  next
    case False
    with assms(1) cnt show ?thesis
      by (simp add: depth_ok_def assms(3) AList.update_conv')
  qed
qed

lemma enqueue_tail_ok:
  assumes "tail_ok st k'" "ops st' = ops st @ [\<lparr>op_key = k, op_pred = p, op_status = Waiting, op_result = Pending\<rparr>]"
    and "queues st' = AList.update k (length (ops st)) (queues st)"
  shows "tail_ok st' k'"
proof -
  let ?n = "length (ops st)"
  have old: "\<And>b. b < ?n \<Longrightarrow> ops st' ! b = ops st ! b" by (simp add: assms(2) nth_append)
  have new: "op_key (ops st' ! ?n) = k" by (simp add: assms(2))
  have len: "length (ops st') = Suc ?n" by (simp add: assms(2))
  have cnt: "count_open k' (ops st') = count_open k' (ops st) + (if k = k' then 1 else 0)"
    by (simp add: assms(2) count_open_snoc)
  show ?thesis
  proof (cases "k' = k")
    case True
    then show ?thesis
      by (simp add: tail_ok_def assms(3) AList.update_conv' len new)
  next
    case False
    have lt: "\<And>j. j < Suc ?n \<Longrightarrow> op_key (ops st' ! j) = k' \<Longrightarrow> j < ?n"
    proof -
      fix j assume "j < Suc ?n" "op_key (ops st' ! j) = k'"
      then show "j < ?n" using False new by (cases "j = ?n") auto
    qed
    show ?thesis
    proof (cases "map_of (queues st) k'")
      case None
      with assms(1) False cnt show ?thesis
        by (simp add: tail_ok_def assms(3) AList.update_conv')
    next
      case (Some t)
      with assms(1) have t: "t < ?n" "op_key (ops st ! t) = k'"
        "\<forall>j < ?n. op_key (ops st ! j) = k' \<longrightarrow> j \<le> t" by (simp_all add: tail_ok_def)
      have "\<forall>j < Suc ?n. op_key (ops st' ! j) = k' \<longrightarrow> j \<le> t"
      proof (intro allI impI)
        fix j assume j: "j < Suc ?n" "op_key (ops st' ! j) = k'"
        from lt[OF this] have "j < ?n" .
        with j(2) t(3) show "j \<le> t" by (simp add: old)
      qed
      with t Some False show ?thesis
        by (simp add: tail_ok_def assms(3) AList.update_conv' len old)
    qed
  qed
qed

lemma queue_inv_enqueue:
  assumes "queue_inv st"
  shows "queue_inv (snd (enqueue k st))"
proof (cases "signal_aborted (q_signal st) \<or> cleared st")
  case True
  then show ?thesis using assms by (auto simp: enqueue_def)
next
  case False
  then have a: "\<not> signal_aborted (q_signal st)" "\<not> cleared st" by simp_all
  note e = enqueue_accepted[OF a, of k]
  have ok: "\<And>k. tail_ok st k" "\<And>k. depth_ok st k"
    using assms a(2) by (simp_all add: queue_inv_def inv_tail_def)
  have "inv_chain (snd (enqueue k st))"
    by (rule enqueue_inv_chain[OF _ ok(1) e(1)]) (use assms in \<open>simp add: queue_inv_def\<close>)
  moreover have "inv_started (snd (enqueue k st))"
    by (rule enqueue_inv_started[OF _ e(1)]) (use assms in \<open>simp add: queue_inv_def\<close>)
  moreover have "inv_tail (snd (enqueue k st))"
    unfolding inv_tail_def
    using enqueue_tail_ok[OF ok(1) e(1) e(2)] enqueue_depth_ok[OF ok(2) e(1) e(3)] by simp
  moreover have "inv_log (snd (enqueue k st))"
    using assms by (auto simp: inv_log_def queue_inv_def e nth_append)
  ultimately show ?thesis by (simp add: queue_inv_def)
qed

lemma abort_op_fields [simp]:
  "op_key (abort_op m opn) = op_key opn" "op_pred (abort_op m opn) = op_pred opn"
  "op_status (abort_op m opn) = op_status opn"
  by (simp_all add: abort_op_def split: handle_state.splits)

lemma count_open_abort: "count_open k (map (abort_op m) os) = count_open k os"
  by (induction os) (simp_all add: count_open_def)

lemma queue_inv_skeleton:
  assumes inv: "queue_inv st"
    and len: "length (ops st') = length (ops st)"
    and key: "\<And>b. b < length (ops st) \<Longrightarrow> op_key (ops st' ! b) = op_key (ops st ! b)"
    and pred: "\<And>b. b < length (ops st) \<Longrightarrow> op_pred (ops st' ! b) = op_pred (ops st ! b)"
    and status: "\<And>b. b < length (ops st) \<Longrightarrow> op_status (ops st' ! b) = op_status (ops st ! b)"
    and cnt: "\<And>k. count_open k (ops st') = count_open k (ops st)"
    and rest: "queues st' = queues st" "queueDepths st' = queueDepths st"
       "cleared st' = cleared st" "invoked st' = invoked st"
  shows "queue_inv st'"
proof -
  have "inv_chain st'"
    unfolding inv_chain_def len
  proof (intro allI impI)
    fix i assume i: "i < length (ops st)"
    with inv have old: "case op_pred (ops st ! i) of
        None \<Rightarrow> \<forall>j<i. op_key (ops st ! j) = op_key (ops st ! i) \<longrightarrow> op_status (ops st ! j) = Done
      | Some p \<Rightarrow> p < i \<and> op_key (ops st ! p) = op_key (ops st ! i)
                  \<and> (\<forall>j<i. op_key (ops st ! j) = op_key (ops st ! i) \<longrightarrow> j \<le> p)"
      by (simp add: queue_inv_def inv_chain_def)
    show "case op_pred (ops st' ! i) of
        None \<Rightarrow> \<forall>j<i. op_key (ops st' ! j) = op_key (ops st' ! i) \<longrightarrow> op_status (ops st' ! j) = Done
      | Some p \<Rightarrow> p < i \<and> op_key (ops st' ! p) = op_key (ops st' ! i)
                  \<and> (\<forall>j<i. op_key (ops st' ! j) = op_key (ops st' ! i) \<longrightarrow> j \<le> p)"
    proof (cases "op_pred (ops st ! i)")
      case None
      with old i show ?thesis by (simp add: key pred status)
    next
      case (Some p)
      with old i show ?thesis by (simp add: key pred status)
    qed
  qed
  moreover have "inv_started st'"
    unfolding inv_started_def len
  proof (intro allI impI)
    fix i assume i: "i < length (ops st)" and w: "op_status (ops st' ! i) \<noteq> Waiting"
    with inv have "chain_settled st (op_pred (ops st ! i))"
      by (simp add: status queue_inv_def inv_started_def)
    then show "chain_settled st' (op_pred (ops st' ! i))"
      using i by (auto simp: chain_settled_def pred status len split: option.splits)
  qed
  moreover have "inv_tail st'"
  proof -
    have t: "\<And>k. tail_ok st' k = tail_ok st k"
      unfolding tail_ok_def rest cnt len
      by (auto simp: key split: option.splits)
    have d: "\<And>k. depth_ok st' k = depth_ok st k"
      unfolding depth_ok_def rest cnt by simp
    show ?thesis using inv unfolding queue_inv_def inv_tail_def rest t d by simp
  qed
  moreover have "inv_log st'"
    using inv by (auto simp: queue_inv_def inv_log_def rest len status)
  ultimately show ?thesis by (simp add: queue_inv_def)
qed

lemma queue_inv_abort:
  assumes "queue_inv st"
  shows "queue_inv (abort reason st)"
proof (cases "q_signal st")
  case None
  then show ?thesis using assms by (simp add: abort_def)
next
  case (Some sg)
  show ?thesis
  proof (cases "aborted sg")
    case True
    then show ?thesis using assms Some by (simp add: abort_def)
  next
    case False
    define m where "m = abort_message (sg\<lparr>aborted := True, reason_message := reason\<rparr>)"
    have o: "ops (abort reason st) = map (abort_op m) (ops st)"
      and r: "queues (abort reason st) = queues st" "queueDepths (abort reason st) = queueDepths st"
         "cleared (abort reason st) = cleared st" "invoked (abort reason st) = invoked st"
      using Some False by (simp_all add: abort_def Let_def m_def)
    show ?thesis
      by (rule queue_inv_skeleton[OF assms _ _ _ _ _ r]) (simp_all add: o count_open_abort)
  qed
qed

lemma queue_inv_cong:
  assumes "ops st' = ops st" "queues st' = queues st" "queueDepths st' = queueDepths st"
    "cleared st' = cleared st" "invoked st' = invoked st"
  shows "queue_inv st' = queue_inv st"
  unfolding queue_inv_def inv_chain_def inv_started_def inv_tail_def inv_log_def tail_ok_def
    depth_ok_def chain_settled_def assms
  by (rule refl)

lemma queue_inv_clear:
  assumes "queue_inv st"
  shows "queue_inv (clear st)"
proof -
  have f: "ops (clear st) = ops st" "invoked (clear st) = invoked st" "cleared (clear st)"
    by (simp_all add: clear_def)
  have "inv_tail (clear st)" by (simp add: inv_tail_def f)
  then show ?thesis
    using assms
    unfolding queue_inv_def inv_chain_def inv_started_def inv_log_def chain_settled_def f
    by simp
qed

lemma queue_inv_init: "queue_inv (createOperationQueue options)"
  by (simp add: queue_inv_def createOperationQueue_def inv_chain_def inv_started_def inv_tail_def
      inv_log_def tail_ok_def depth_ok_def count_open_def)

lemma queue_inv_step: "queue_inv st \<Longrightarrow> queue_inv (queue_step st inp)"
proof (cases inp)
  case (Enqueue k)
  assume "queue_inv st"
  from queue_inv_enqueue[OF this, of k] have e: "queue_inv (snd (enqueue k st))" .
  obtain r st' where r: "enqueue k st = (r, st')" by (cases "enqueue k st")
  show ?thesis
  proof (cases r)
    case (Inl err)
    have "queue_inv (st'\<lparr>refused := refused st' @ [(k, err)]\<rparr>) = queue_inv st'"
      by (rule queue_inv_cong) simp_all
    then show ?thesis using e r Inl Enqueue by simp
  next
    case (Inr i)
    then show ?thesis using e r Enqueue by simp
  qed
qed (simp_all add: queue_inv_settle queue_inv_start queue_inv_finalize queue_inv_abort queue_inv_clear)

lemma queue_inv_run: "queue_inv st \<Longrightarrow> queue_inv (run_queue st inputs)"
  unfolding run_queue_def
  by (induction inputs arbitrary: st) (simp_all add: queue_inv_step)


lemma serialized_of_inv:
  assumes "inv_chain st" "inv_started st"
  shows "serialized st"
  unfolding serialized_def
proof (intro allI impI)
  fix j i
  assume "j < length (ops st)" "i < j"
    "op_key (ops st ! i) = op_key (ops st ! j) \<and> op_status (ops st ! j) \<noteq> Waiting"
  then show "op_status (ops st ! i) = Done"
  proof (induction j arbitrary: i rule: less_induct)
    case (less j)
    from less.prems have key: "op_key (ops st ! i) = op_key (ops st ! j)"
      and w: "op_status (ops st ! j) \<noteq> Waiting" by simp_all
    from assms(2) less.prems(1) w have cs: "chain_settled st (op_pred (ops st ! j))"
      by (simp add: inv_started_def)
    from assms(1) less.prems(1) have ch: "case op_pred (ops st ! j) of
        None \<Rightarrow> \<forall>a<j. op_key (ops st ! a) = op_key (ops st ! j) \<longrightarrow> op_status (ops st ! a) = Done
      | Some p \<Rightarrow> p < j \<and> op_key (ops st ! p) = op_key (ops st ! j)
                  \<and> (\<forall>a<j. op_key (ops st ! a) = op_key (ops st ! j) \<longrightarrow> a \<le> p)"
      by (simp add: inv_chain_def)
    show ?case
    proof (cases "op_pred (ops st ! j)")
      case None
      with ch less.prems(2) key show ?thesis by simp
    next
      case (Some p)
      with ch have p: "p < j" "op_key (ops st ! p) = op_key (ops st ! j)"
        and le: "\<forall>a<j. op_key (ops st ! a) = op_key (ops st ! j) \<longrightarrow> a \<le> p" by simp_all
      from cs Some have pd: "p < length (ops st)" "op_status (ops st ! p) = Done"
        by (simp_all add: chain_settled_def)
      from le less.prems(2) key have "i \<le> p" by simp
      show ?thesis
      proof (cases "i = p")
        case True
        then show ?thesis using pd by simp
      next
        case False
        with \<open>i \<le> p\<close> have "i < p" by simp
        from less.IH[OF p(1) pd(1) this] key p(2) pd(2) show ?thesis by simp
      qed
    qed
  qed
qed

lemma step_keys:
  "b < length (ops st) \<Longrightarrow>
     b < length (ops (queue_step st inp)) \<and> op_key (ops (queue_step st inp) ! b) = op_key (ops st ! b)"
proof (cases inp)
  case (Enqueue k)
  assume "b < length (ops st)"
  then show ?thesis unfolding Enqueue
    by (cases "enqueue k st") (auto simp: enqueue_def Let_def nth_append split: if_splits sum.splits)
next
  case (Start i)
  assume "b < length (ops st)"
  then show ?thesis unfolding Start by (auto simp: start_def startable_def nth_list_update)
next
  case (Settle i r)
  assume "b < length (ops st)"
  then show ?thesis unfolding Settle by (auto simp: settle_op_def nth_list_update)
next
  case (Finalize i)
  assume "b < length (ops st)"
  then show ?thesis unfolding Finalize by (auto simp: finalize_def Let_def nth_list_update)
next
  case (Abort reason)
  assume "b < length (ops st)"
  then show ?thesis unfolding Abort by (auto simp: abort_def Let_def split: option.splits)
next
  case Clear
  assume "b < length (ops st)"
  then show ?thesis unfolding Clear by (simp add: clear_def)
qed

lemma step_invoked:
  "invoked (queue_step st inp) = invoked st
   \<or> (\<exists>i. startable st i \<and> invoked (queue_step st inp) = invoked st @ [i])"
proof (cases inp)
  case (Enqueue k)
  show ?thesis unfolding Enqueue
    by (cases "enqueue k st") (auto simp: enqueue_def Let_def split: if_splits sum.splits)
next
  case (Start i)
  show ?thesis unfolding Start by (auto simp: start_def)
next
  case (Settle i r)
  show ?thesis unfolding Settle by (auto simp: settle_op_def)
next
  case (Finalize i)
  show ?thesis unfolding Finalize by (auto simp: finalize_def Let_def)
next
  case (Abort reason)
  show ?thesis unfolding Abort by (auto simp: abort_def Let_def split: option.splits)
next
  case Clear
  show ?thesis unfolding Clear by (simp add: clear_def)
qed

lemma invoked_on_same:
  assumes "inv_log st" "invoked st' = invoked st"
    and "\<And>b. b < length (ops st) \<Longrightarrow> op_key (ops st' ! b) = op_key (ops st ! b)"
  shows "invoked_on st' k = invoked_on st k"
  unfolding invoked_on_def assms(2)
  by (rule filter_cong) (use assms(1,3) in \<open>auto simp: inv_log_def\<close>)

lemma inv_order_step:
  assumes "queue_inv st" "inv_order st"
  shows "inv_order (queue_step st inp)"
proof -
  let ?st' = "queue_step st inp"
  have lg: "inv_log st" using assms(1) by (simp add: queue_inv_def)
  have keys: "\<And>b. b < length (ops st) \<Longrightarrow> op_key (ops ?st' ! b) = op_key (ops st ! b)"
    using step_keys by blast
  from step_invoked[of st inp] show ?thesis
  proof
    assume "invoked ?st' = invoked st"
    from invoked_on_same[OF lg this keys] assms(2) show ?thesis by (simp add: inv_order_def)
  next
    assume "\<exists>i. startable st i \<and> invoked ?st' = invoked st @ [i]"
    then obtain i where st: "startable st i" and iv: "invoked ?st' = invoked st @ [i]" by blast
    then have i: "i < length (ops st)" and w: "op_status (ops st ! i) = Waiting"
      by (simp_all add: startable_def)
    have ser: "serialized st"
      using assms(1) by (simp add: queue_inv_def serialized_of_inv)
    show ?thesis
      unfolding inv_order_def
    proof
      fix k
      have old: "filter (\<lambda>a. op_key (ops ?st' ! a) = k) (invoked st) = invoked_on st k"
        unfolding invoked_on_def
        by (rule filter_cong) (use lg keys in \<open>auto simp: inv_log_def\<close>)
      have lt: "\<forall>a \<in> set (invoked_on st k). op_key (ops st ! i) = k \<longrightarrow> a < i"
      proof (intro ballI impI)
        fix a assume a: "a \<in> set (invoked_on st k)" and ki: "op_key (ops st ! i) = k"
        then have ai: "a \<in> set (invoked st)" and ka: "op_key (ops st ! a) = k"
          by (simp_all add: invoked_on_def)
        with lg have al: "a < length (ops st)" and aw: "op_status (ops st ! a) \<noteq> Waiting"
          by (simp_all add: inv_log_def)
        have "a \<noteq> i" using aw w by auto
        moreover have "\<not> i < a"
        proof
          assume "i < a"
          with ser al ka ki aw have "op_status (ops st ! i) = Done"
            by (simp add: serialized_def)
          with w show False by simp
        qed
        ultimately show "a < i" by simp
      qed
      have "invoked_on ?st' k = invoked_on st k @ (if op_key (ops st ! i) = k then [i] else [])"
        unfolding invoked_on_def[of ?st'] iv using old keys[OF i] by simp
      with lt assms(2) show "sorted_wrt (<) (invoked_on ?st' k)"
        by (auto simp: inv_order_def sorted_wrt_append)
    qed
  qed
qed

lemma reachable_inv:
  "queue_inv (run_queue (createOperationQueue options) inputs)
   \<and> inv_order (run_queue (createOperationQueue options) inputs)"
proof -
  have "\<And>st. queue_inv st \<and> inv_order st \<Longrightarrow> queue_inv (run_queue st inputs) \<and> inv_order (run_queue st inputs)"
    unfolding run_queue_def
    by (induction inputs) (simp_all add: queue_inv_step inv_order_step)
  moreover have "inv_order (createOperationQueue options)"
    by (simp add: inv_order_def invoked_on_def createOperationQueue_def)
  ultimately show ?thesis using queue_inv_init by blast
qed

lemma reachable_serialized: "serialized (run_queue (createOperationQueue options) inputs)"
  using reachable_inv[of options inputs] by (simp add: queue_inv_def serialized_of_inv)


lemma settle_failure_isolated:
  "chain_view (settle_op i (Inl e) st) = chain_view (settle_op i (Inr v) st)
   \<and> (\<forall>j. j \<noteq> i \<longrightarrow> ops (settle_op i (Inl e) st) ! j = ops st ! j)"
  by (simp add: settle_op_def chain_view_def map_update)

lemma settle_rejects_own_handle:
  "i < length (ops st) \<Longrightarrow> op_status (ops st ! i) = Running \<Longrightarrow> op_result (ops st ! i) = Pending
     \<Longrightarrow> op_result (ops (settle_op i (Inl e) st) ! i) = RejectedWith e"
  by (simp add: settle_op_def deliver_def)

lemma finalize_fields:
  assumes "i < length (ops st)" "op_status (ops st ! i) = Delivered"
  shows "ops (finalize i st) = (ops st)[i := (ops st ! i)\<lparr>op_status := Done\<rparr>]"
    and "cleared (finalize i st) = cleared st" and "q_signal (finalize i st) = q_signal st"
    and "invoked (finalize i st) = invoked st"
  using assms by (simp_all add: finalize_def Let_def)

lemma continue_after_failure:
  assumes "i < length (ops st)" "j < length (ops st)"
    and "op_status (ops st ! i) = Running" "op_status (ops st ! j) = Waiting"
    and "op_pred (ops st ! j) = Some i"
    and "\<not> cleared st" "\<not> signal_aborted (q_signal st)"
  shows "op_status (ops (run_queue st [Settle i (Inl e), Finalize i, Start j]) ! j) = Running
       \<and> invoked (run_queue st [Settle i (Inl e), Finalize i, Start j]) = invoked st @ [j]"
proof -
  have ij: "i \<noteq> j" using assms(3,4) by auto
  let ?st1 = "settle_op i (Inl e) st"
  have s1: "ops ?st1 = (ops st)[i := deliver (Inl e) (ops st ! i)]" "cleared ?st1 = cleared st"
    "q_signal ?st1 = q_signal st" "invoked ?st1 = invoked st"
    using assms(1,3) by (simp_all add: settle_op_def)
  have d1: "i < length (ops ?st1)" "op_status (ops ?st1 ! i) = Delivered"
    using assms(1) by (simp_all add: s1)
  let ?st2 = "finalize i ?st1"
  note f = finalize_fields[OF d1]
  have st2: "startable ?st2 j"
    using assms(1,2,4,5) ij by (simp add: startable_def chain_settled_def f s1)
  have "start j ?st2 = ?st2\<lparr>ops := (ops ?st2)[j := (ops ?st2 ! j)\<lparr>op_status := Running\<rparr>],
                             invoked := invoked ?st2 @ [j]\<rparr>"
    using st2 assms(6,7) by (simp add: start_def f s1)
  then show ?thesis
    using assms(2) by (simp add: run_queue_def f s1)
qed

lemma op_step_shape:
  assumes "inp = Start i \<or> inp = Settle i r \<or> inp = Finalize i"
  shows "length (ops (queue_step st inp)) = length (ops st)
       \<and> (\<forall>b. b \<noteq> i \<longrightarrow> ops (queue_step st inp) ! b = ops st ! b)"
proof -
  have 1: "length (ops (start i st)) = length (ops st)
       \<and> (\<forall>b. b \<noteq> i \<longrightarrow> ops (start i st) ! b = ops st ! b)"
    by (simp add: start_def)
  have 2: "length (ops (settle_op i r st)) = length (ops st)
       \<and> (\<forall>b. b \<noteq> i \<longrightarrow> ops (settle_op i r st) ! b = ops st ! b)"
    by (simp add: settle_op_def)
  have 3: "length (ops (finalize i st)) = length (ops st)
       \<and> (\<forall>b. b \<noteq> i \<longrightarrow> ops (finalize i st) ! b = ops st ! b)"
  proof (cases "i < length (ops st) \<and> op_status (ops st ! i) = Delivered")
    case True
    then show ?thesis by (simp add: finalize_fields)
  next
    case False
    then have "finalize i st = st" by (auto simp: finalize_def)
    then show ?thesis by simp
  qed
  from assms 1 2 3 show ?thesis by auto
qed

lemma other_key_untouched:
  assumes "queue_inv st" "j < length (ops st)"
    and "op_key (ops st ! i) \<noteq> op_key (ops st ! j)"
    and "inp = Start i \<or> inp = Settle i r \<or> inp = Finalize i"
  shows "ops (queue_step st inp) ! j = ops st ! j
       \<and> startable (queue_step st inp) j = startable st j"
proof -
  have ij: "i \<noteq> j" using assms(3) by auto
  from assms(1,2) have ch: "case op_pred (ops st ! j) of
        None \<Rightarrow> True
      | Some p \<Rightarrow> p < j \<and> op_key (ops st ! p) = op_key (ops st ! j)"
    by (auto simp: queue_inv_def inv_chain_def split: option.splits)
  note sh = op_step_shape[OF assms(4), of st]
  show ?thesis
  proof (cases "op_pred (ops st ! j)")
    case None
    then show ?thesis using sh ij by (simp add: startable_def chain_settled_def)
  next
    case (Some p)
    with ch assms(3) have "p \<noteq> i" by auto
    then show ?thesis using sh ij Some by (simp add: startable_def chain_settled_def)
  qed
qed

lemma one_at_a_time:
  assumes "serialized st" "j < length (ops st)" "i < j"
    and "op_key (ops st ! i) = op_key (ops st ! j)"
  shows "\<not> (in_progress st i \<and> in_progress st j)"
proof
  assume a: "in_progress st i \<and> in_progress st j"
  then have "op_status (ops st ! j) \<noteq> Waiting" by (auto simp: in_progress_def)
  with assms have "op_status (ops st ! i) = Done" by (simp add: serialized_def)
  with a show False by (auto simp: in_progress_def)
qed


text \<open>
  Claim C4. In every state a queue can reach, by any sequence of calls, reactions and
  settlements: an operation that has left \<open>Waiting\<close> has every earlier operation on its
  key \<open>Done\<close>, and the operations invoked on a key were invoked in enqueue order. A
  failure of operation \<open>i\<close> leaves every other operation as it was, and leaves the
  queue, but for the result promises, exactly as a success would; it rejects the
  result promise of \<open>i\<close> if that was pending. After the failure and the \<open>finally\<close>
  block of \<open>i\<close>, the operation chained onto \<open>i\<close> is invoked when its reaction runs
  (in a queue that is not cleared and whose signal is not aborted, which reject it
  instead). A reaction or settlement of an operation on one key leaves each operation on
  another key unchanged and neither enables nor disables its start.
\<close>

theorem queue_fifo_per_key:
  fixes inputs :: "'v queue_input list" and st :: "'v queue_state"
  shows
  "serialized (run_queue (createOperationQueue options) inputs)
   \<and> (\<forall>k. sorted_wrt (<) (invoked_on (run_queue (createOperationQueue options) inputs) k))
   \<and> chain_view (settle_op i (Inl e) st) = chain_view (settle_op i (Inr v) st)
   \<and> (\<forall>j. j \<noteq> i \<longrightarrow> ops (settle_op i (Inl e) st) ! j = ops st ! j)
   \<and> (i < length (ops st) \<and> op_status (ops st ! i) = Running \<and> op_result (ops st ! i) = Pending
        \<longrightarrow> op_result (ops (settle_op i (Inl e) st) ! i) = RejectedWith e)
   \<and> (i < length (ops st) \<and> j < length (ops st)
        \<and> op_status (ops st ! i) = Running \<and> op_status (ops st ! j) = Waiting
        \<and> op_pred (ops st ! j) = Some i \<and> \<not> cleared st \<and> \<not> signal_aborted (q_signal st)
        \<longrightarrow> op_status (ops (run_queue st [Settle i (Inl e), Finalize i, Start j]) ! j) = Running
            \<and> invoked (run_queue st [Settle i (Inl e), Finalize i, Start j]) = invoked st @ [j])
   \<and> (\<forall>a b inp.
         b < length (ops (run_queue (createOperationQueue options) inputs))
         \<and> op_key (ops (run_queue (createOperationQueue options) inputs) ! a)
             \<noteq> op_key (ops (run_queue (createOperationQueue options) inputs) ! b)
         \<and> (inp = Start a \<or> (\<exists>r. inp = Settle a r) \<or> inp = Finalize a)
         \<longrightarrow> ops (queue_step (run_queue (createOperationQueue options) inputs) inp) ! b
               = ops (run_queue (createOperationQueue options) inputs) ! b
             \<and> startable (queue_step (run_queue (createOperationQueue options) inputs) inp) b
               = startable (run_queue (createOperationQueue options) inputs) b)"
proof -
  let ?R = "run_queue (createOperationQueue options) inputs"
  note inv = reachable_inv[of options inputs]
  have 1: "serialized ?R" by (rule reachable_serialized)
  have 2: "\<forall>k. sorted_wrt (<) (invoked_on ?R k)" using inv by (simp add: inv_order_def)
  note 3 = settle_failure_isolated[of i e st v]
  have 4: "i < length (ops st) \<and> op_status (ops st ! i) = Running \<and> op_result (ops st ! i) = Pending
        \<longrightarrow> op_result (ops (settle_op i (Inl e) st) ! i) = RejectedWith e"
    using settle_rejects_own_handle by blast
  have 5: "i < length (ops st) \<and> j < length (ops st)
        \<and> op_status (ops st ! i) = Running \<and> op_status (ops st ! j) = Waiting
        \<and> op_pred (ops st ! j) = Some i \<and> \<not> cleared st \<and> \<not> signal_aborted (q_signal st)
        \<longrightarrow> op_status (ops (run_queue st [Settle i (Inl e), Finalize i, Start j]) ! j) = Running
            \<and> invoked (run_queue st [Settle i (Inl e), Finalize i, Start j]) = invoked st @ [j]"
    using continue_after_failure by blast
  have 6: "\<forall>a b inp.
         b < length (ops ?R) \<and> op_key (ops ?R ! a) \<noteq> op_key (ops ?R ! b)
         \<and> (inp = Start a \<or> (\<exists>r. inp = Settle a r) \<or> inp = Finalize a)
         \<longrightarrow> ops (queue_step ?R inp) ! b = ops ?R ! b
             \<and> startable (queue_step ?R inp) b = startable ?R b"
  proof (intro allI impI)
    fix a b and inp :: "'v queue_input"
    assume h: "b < length (ops ?R) \<and> op_key (ops ?R ! a) \<noteq> op_key (ops ?R ! b)
         \<and> (inp = Start a \<or> (\<exists>r. inp = Settle a r) \<or> inp = Finalize a)"
    then obtain r where "inp = Start a \<or> inp = Settle a r \<or> inp = Finalize a" by blast
    from other_key_untouched[where st = ?R and j = b and i = a and inp = inp and r = r] this h inv
    show "ops (queue_step ?R inp) ! b = ops ?R ! b
             \<and> startable (queue_step ?R inp) b = startable ?R b"
      by blast
  qed
  from 1 2 3 4 5 6 show ?thesis by blast
qed

lemmas queue_defs = run_queue_def createOperationQueue_def enqueue_def start_def settle_op_def
  finalize_def abort_def clear_def startable_def chain_settled_def deliver_def signal_aborted_def
  Let_def

lemma same_key_result:
  "run_queue (createOperationQueue no_options) same_key_run =
     \<lparr>q_signal = None, queues = [], queueDepths = [], cleared = False,
      ops = [\<lparr>op_key = ''X'', op_pred = None, op_status = Done, op_result = RejectedWith boom\<rparr>,
             \<lparr>op_key = ''X'', op_pred = Some 0, op_status = Done, op_result = Fulfilled ''2''\<rparr>],
      invoked = [0, 1], refused = []\<rparr>"
  by (simp add: queue_defs no_options_def same_key_run_def)

lemma two_keys_results:
  "map op_status (ops (run_queue (createOperationQueue no_options) two_keys_Y_first)) = [Running, Done]"
  "invoked (run_queue (createOperationQueue no_options) two_keys_Y_first) = [0, 1]"
  "map op_status (ops (run_queue (createOperationQueue no_options) two_keys_X_first)) = [Done, Running]"
  "invoked (run_queue (createOperationQueue no_options) two_keys_X_first) = [1, 0]"
  by (simp_all add: queue_defs no_options_def two_keys_Y_first_def two_keys_X_first_def)


lemma first_running_state:
  "run_queue (createOperationQueue no_options) first_running =
     \<lparr>q_signal = None, queues = [(''X'', 1)], queueDepths = [(''X'', 2)], cleared = False,
      ops = [\<lparr>op_key = ''X'', op_pred = None, op_status = Running, op_result = Pending\<rparr>,
             \<lparr>op_key = ''X'', op_pred = Some 0, op_status = Waiting, op_result = Pending\<rparr>],
      invoked = [0], refused = []\<rparr>"
  by (simp add: queue_defs no_options_def first_running_def)

text \<open>
  Witness for C4: two operations on X, the first failing, and two operations on X and Y
  completing in either order.
\<close>

theorem queue_fifo_per_key_witness:
  "serialized (run_queue (createOperationQueue no_options) same_key_run)
   \<and> invoked_on (run_queue (createOperationQueue no_options) same_key_run) ''X'' = [0, 1]
   \<and> map op_result (ops (run_queue (createOperationQueue no_options) same_key_run))
       = [RejectedWith boom, Fulfilled ''2'']
   \<and> map op_status (ops (run_queue (createOperationQueue no_options) first_running))
       = [Running, Waiting]
   \<and> op_status (ops (run_queue (run_queue (createOperationQueue no_options) first_running)
                         [Settle 0 (Inl boom), Finalize 0, Start 1]) ! 1) = Running
   \<and> invoked (run_queue (run_queue (createOperationQueue no_options) first_running)
                         [Settle 0 (Inl boom), Finalize 0, Start 1]) = [0, 1]
   \<and> map op_status (ops (run_queue (createOperationQueue no_options) two_keys_Y_first)) = [Running, Done]
   \<and> map op_status (ops (run_queue (createOperationQueue no_options) two_keys_X_first)) = [Done, Running]"
proof -
  let ?st0 = "run_queue (createOperationQueue no_options) first_running"
  have h: "0 < length (ops ?st0)" "1 < length (ops ?st0)"
    "op_status (ops ?st0 ! 0) = Running" "op_status (ops ?st0 ! 1) = Waiting"
    "op_pred (ops ?st0 ! 1) = Some 0" "\<not> cleared ?st0" "\<not> signal_aborted (q_signal ?st0)"
    "invoked ?st0 = [0]"
    "map op_status (ops ?st0) = [Running, Waiting]"
    by (simp_all add: first_running_state signal_aborted_def)
  have r: "invoked_on (run_queue (createOperationQueue no_options) same_key_run) ''X'' = [0, 1]"
    "map op_result (ops (run_queue (createOperationQueue no_options) same_key_run))
       = [RejectedWith boom, Fulfilled ''2'']"
    by (simp_all add: same_key_result invoked_on_def)
  from queue_fifo_per_key[of no_options same_key_run 0 boom ?st0 "''1''" 1] h r two_keys_results
  show ?thesis by simp
qed

text \<open>
  Claim C10. A queue created with \<open>maxConcurrent = v\<close>, for any \<open>v\<close>, is in the same
  state after any sequence of inputs as a queue created without the option, and never
  has two operations on one key in progress at once.
\<close>

theorem maxConcurrent_is_ignored:
  fixes inputs :: "'v queue_input list"
  shows
  "run_queue (createOperationQueue (options\<lparr>maxConcurrent := v\<rparr>)) inputs
     = run_queue (createOperationQueue (options\<lparr>maxConcurrent := None\<rparr>)) inputs
   \<and> (\<forall>i j. i < j
          \<and> j < length (ops (run_queue (createOperationQueue (options\<lparr>maxConcurrent := v\<rparr>)) inputs))
          \<and> op_key (ops (run_queue (createOperationQueue (options\<lparr>maxConcurrent := v\<rparr>)) inputs) ! i)
              = op_key (ops (run_queue (createOperationQueue (options\<lparr>maxConcurrent := v\<rparr>)) inputs) ! j)
          \<longrightarrow> \<not> (in_progress (run_queue (createOperationQueue (options\<lparr>maxConcurrent := v\<rparr>)) inputs) i
                   \<and> in_progress (run_queue (createOperationQueue (options\<lparr>maxConcurrent := v\<rparr>)) inputs) j))"
proof -
  let ?R = "run_queue (createOperationQueue (options\<lparr>maxConcurrent := v\<rparr>)) inputs"
  have "(createOperationQueue (options\<lparr>maxConcurrent := v\<rparr>) :: 'v queue_state)
          = createOperationQueue (options\<lparr>maxConcurrent := None\<rparr>)"
    by (simp add: createOperationQueue_def)
  then have 1: "?R = run_queue (createOperationQueue (options\<lparr>maxConcurrent := None\<rparr>)) inputs"
    by simp
  have "serialized ?R" by (rule reachable_serialized)
  then have 2: "\<forall>i j. i < j \<and> j < length (ops ?R) \<and> op_key (ops ?R ! i) = op_key (ops ?R ! j)
          \<longrightarrow> \<not> (in_progress ?R i \<and> in_progress ?R j)"
    using one_at_a_time by blast
  from 1 2 show ?thesis by blast
qed

text \<open>
  Witness for C10: with \<open>maxConcurrent = 5\<close> and two operations on X, the second stays
  waiting while the first runs.
\<close>

theorem maxConcurrent_is_ignored_witness:
  "run_queue (createOperationQueue five_concurrent) both_tried
     = run_queue (createOperationQueue no_options) both_tried
   \<and> map op_status (ops (run_queue (createOperationQueue five_concurrent) both_tried))
       = [Running, Waiting]
   \<and> \<not> (in_progress (run_queue (createOperationQueue five_concurrent) both_tried) 0
          \<and> in_progress (run_queue (createOperationQueue five_concurrent) both_tried) 1)"
proof -
  let ?R = "run_queue (createOperationQueue five_concurrent) both_tried"
  have o: "five_concurrent\<lparr>maxConcurrent := Some 5\<rparr> = five_concurrent"
    "five_concurrent\<lparr>maxConcurrent := None\<rparr> = no_options"
    by (simp_all add: five_concurrent_def no_options_def)
  have s: "ops ?R =
      [\<lparr>op_key = ''X'', op_pred = None, op_status = Running, op_result = Pending\<rparr>,
       \<lparr>op_key = ''X'', op_pred = Some 0, op_status = Waiting, op_result = Pending\<rparr>]"
    by (simp add: queue_defs five_concurrent_def both_tried_def)
  note t = maxConcurrent_is_ignored[where options = five_concurrent and v = "Some 5"
      and inputs = both_tried, unfolded o]
  from t have 1: "?R = run_queue (createOperationQueue no_options) both_tried" by blast
  have h: "(0::nat) < 1 \<and> 1 < length (ops ?R) \<and> op_key (ops ?R ! 0) = op_key (ops ?R ! 1)"
    by (simp add: s)
  with t have 2: "\<not> (in_progress ?R 0 \<and> in_progress ?R 1)" by blast
  have 3: "map op_status (ops ?R) = [Running, Waiting]" by (simp add: s)
  from 1 2 3 show ?thesis by blast
qed

section \<open>The retry engine: attempts, reported delays, default classification\<close>

lemma reported_delay_le: "reported_delay i m b a \<le> m"
  by (simp add: reported_delay_def Let_def)

lemma pRetry_fails_twice:
  assumes "p e1" "p e2"
  shows "pRetry (\<lambda>n. case operation (fails_twice e1 e2 v) n of
                         Inr v \<Rightarrow> Resolved v
                       | Inl e \<Rightarrow> if \<not> p e then RejectedStop (err_message e) else Rejected e)
           2 (\<lambda>n. sg \<and> abortsDuringDelay (fails_twice e1 e2 v) n) reason
         = (Inr v, 3, [(1, 2, e1), (2, 1, e2)], False)"
proof -
  have two: "(2::nat) = Suc (Suc 0)" by simp
  show ?thesis unfolding pRetry_def two using assms
    by (simp add: fails_twice_def)
qed

text \<open>
  Claim C5, as amended. With \<open>maxAttempts = 3\<close>, an observer supplied, a signal (if any)
  that is not aborted and does not fire, and an operation that fails on calls 1 and 2
  with errors the predicate in force accepts and succeeds on call 3: \<open>withRetry\<close>
  resolves with the success value, invokes the operation exactly 3 times, and calls
  \<open>onRetry\<close> exactly twice, with attempts 1 then 2 and with the delay
  \<open>min (min initialDelay maxDelay * backoffMultiplier ^ (attempt - 1)) maxDelay\<close>, which is
  at most \<open>maxDelay\<close>.
\<close>

theorem withRetry_three_attempts:
  assumes "maxAttempts options = Some 3"
    and "isRetryable_of options e1" and "isRetryable_of options e2"
    and "\<not> signal_aborted (signal options)"
    and "onRetry options"
  shows "outcome (withRetry (fails_twice e1 e2 v) options) = Inr v
       \<and> invocations (withRetry (fails_twice e1 e2 v) options) = 3
       \<and> onRetryCalls (withRetry (fails_twice e1 e2 v) options) =
           [(1, min (min (initialDelayMs_of options) (maxDelayMs_of options)
                       * backoffMultiplier_of options ^ (1 - 1)) (maxDelayMs_of options), e1),
            (2, min (min (initialDelayMs_of options) (maxDelayMs_of options)
                       * backoffMultiplier_of options ^ (2 - 1)) (maxDelayMs_of options), e2)]
       \<and> (\<forall>(attempt, delay, e) \<in> set (onRetryCalls (withRetry (fails_twice e1 e2 v) options)).
             delay \<le> maxDelayMs_of options)"
proof -
  have n: "nat (maxAttempts_of options - 1) = 2" "\<not> maxAttempts_of options < 1"
    using assms(1) by (simp_all add: maxAttempts_of_def)
  show ?thesis
    unfolding withRetry_def Let_def n
    using assms(4,5) n(2)
    by (simp add: pRetry_fails_twice[of "isRetryable_of options", OF assms(2,3)] reported_delay_def Let_def)
qed

lemma sample_fields:
  "maxAttempts sample_options = Some 3" "signal sample_options = None" "onRetry sample_options"
  "initialDelayMs_of sample_options = 100" "maxDelayMs_of sample_options = 10"
  "backoffMultiplier_of sample_options = 1 / 2" "isRetryable_of sample_options = isTransientBLEError"
  by (simp_all add: sample_options_def initialDelayMs_of_def maxDelayMs_of_def backoffMultiplier_of_def isRetryable_of_def)

lemma network_error_retryable: "isTransientBLEError network_error"
  by (simp add: network_error_def isTransientBLEError_def Error_def matchesAny_def
      nonRetryablePatterns_def retryablePatterns_def toLowerCase_def toLowerCase_char_def)

text \<open>Witness for C5: initial delay 100, maximal delay 10, multiplier 1/2, default predicate.\<close>

theorem withRetry_three_attempts_witness:
  "outcome (withRetry (fails_twice network_error network_error ''ok'') sample_options) = Inr ''ok''
   \<and> invocations (withRetry (fails_twice network_error network_error ''ok'') sample_options) = 3
   \<and> onRetryCalls (withRetry (fails_twice network_error network_error ''ok'') sample_options)
       = [(1, 10, network_error), (2, 5, network_error)]"
proof -
  have a: "isRetryable_of sample_options network_error"
    by (simp add: sample_fields network_error_retryable)
  have b: "\<not> signal_aborted (signal sample_options)"
    by (simp add: sample_fields signal_aborted_def)
  from withRetry_three_attempts[OF sample_fields(1) a a b sample_fields(3), of "''ok''"]
  show ?thesis by (simp add: sample_fields)
qed

text \<open>
  Counterexample to C5 as stated: with initial delay 100, maximal delay 10 and multiplier
  1/2, the delay handed to \<open>onRetry\<close> for attempt 2 is 5, while
  \<open>min (initialDelay * backoffMultiplier ^ (attempt - 1)) maxDelay\<close> is 10. Each entry
  below is (attempt, delay reported, delay by the formula of the claim).
\<close>

theorem reported_delay_counterexample:
  "map (\<lambda>(attempt, delay, e). (attempt, delay, spec_delay 100 10 (1 / 2) attempt))
       (onRetryCalls (withRetry (fails_twice network_error network_error ''ok'') sample_options))
     = [(1, 10, 10), (2, 5, 10)]
   \<and> initialDelayMs sample_options = Some 100 \<and> maxDelayMs sample_options = Some 10
   \<and> backoffMultiplier sample_options = Some (1 / 2) \<and> maxAttempts sample_options = Some 3"
proof -
  have two: "(2::nat) = Suc (Suc 0)" by simp
  have n: "nat (maxAttempts_of sample_options - 1) = 2" "\<not> maxAttempts_of sample_options < 1"
    by (simp_all add: maxAttempts_of_def sample_fields)
  have "onRetryCalls (withRetry (fails_twice network_error network_error ''ok'') sample_options)
       = [(1, 10, network_error), (2, 5, network_error)]"
    unfolding withRetry_def Let_def n pRetry_def two
    using n(2)
    by (simp add: sample_fields signal_aborted_def fails_twice_def network_error_retryable reported_delay_def)
  then show ?thesis by (simp add: spec_delay_def sample_options_def)
qed

lemmas classify_defs = isTransientBLEError_def Error_def TimeoutError_def matchesAny_def
      nonRetryablePatterns_def retryablePatterns_def toLowerCase_def toLowerCase_char_def

lemma options_isRetryable_update:
  "maxAttempts_of (options\<lparr>isRetryable := p\<rparr>) = maxAttempts_of options"
  "initialDelayMs_of (options\<lparr>isRetryable := p\<rparr>) = initialDelayMs_of options"
  "maxDelayMs_of (options\<lparr>isRetryable := p\<rparr>) = maxDelayMs_of options"
  "backoffMultiplier_of (options\<lparr>isRetryable := p\<rparr>) = backoffMultiplier_of options"
  "isRetryable options = None \<Longrightarrow>
     isRetryable_of (options\<lparr>isRetryable := Some isTransientBLEError\<rparr>) = isRetryable_of options"
  by (simp_all add: maxAttempts_of_def initialDelayMs_of_def maxDelayMs_of_def
      backoffMultiplier_of_def isRetryable_of_def)

lemma withRetry_default_predicate:
  assumes "isRetryable options = None"
  shows "withRetry env options = withRetry env (options\<lparr>isRetryable := Some isTransientBLEError\<rparr>)"
proof -
  have p: "isRetryable_of (options\<lparr>isRetryable := Some isTransientBLEError\<rparr>) = isRetryable_of options"
    using assms by (rule options_isRetryable_update(5))
  have s: "signal (options\<lparr>isRetryable := Some isTransientBLEError\<rparr>) = signal options"
    "onRetry (options\<lparr>isRetryable := Some isTransientBLEError\<rparr>) = onRetry options"
    by simp_all
  show ?thesis
    unfolding withRetry_def p s options_isRetryable_update(1-4) by (rule refl)
qed

lemma startsWith_iff: "startsWith s p \<longleftrightarrow> (\<exists>ys. s = p @ ys)"
  by (induction s p rule: startsWith.induct) auto

lemma js_includes_iff: "js_includes s p \<longleftrightarrow> (\<exists>xs ys. s = xs @ p @ ys)"
proof (induction s)
  case Nil
  show ?case by auto
next
  case (Cons c cs)
  have "(\<exists>xs ys. c # cs = xs @ p @ ys)
        \<longleftrightarrow> (\<exists>ys. c # cs = p @ ys) \<or> (\<exists>xs ys. cs = xs @ p @ ys)"
  proof
    assume "\<exists>xs ys. c # cs = xs @ p @ ys"
    then obtain xs ys where e: "c # cs = xs @ p @ ys" by blast
    show "(\<exists>ys. c # cs = p @ ys) \<or> (\<exists>xs ys. cs = xs @ p @ ys)"
    proof (cases xs)
      case Nil
      with e show ?thesis by auto
    next
      case (Cons x xs')
      with e have "cs = xs' @ p @ ys" by simp
      then show ?thesis by blast
    qed
  next
    assume "(\<exists>ys. c # cs = p @ ys) \<or> (\<exists>xs ys. cs = xs @ p @ ys)"
    then show "\<exists>xs ys. c # cs = xs @ p @ ys"
    proof
      assume "\<exists>ys. c # cs = p @ ys"
      then obtain ys where "c # cs = [] @ p @ ys" by auto
      then show ?thesis by blast
    next
      assume "\<exists>xs ys. cs = xs @ p @ ys"
      then obtain xs ys where "c # cs = (c # xs) @ p @ ys" by auto
      then show ?thesis by blast
    qed
  qed
  with Cons show ?case by (simp add: startsWith_iff)
qed

lemma toLowerCase_letters:
  "toLowerCase (s @ t) = toLowerCase s @ toLowerCase t"
  "toLowerCase ''ABCDEFGHIJKLMNOPQRSTUVWXYZ'' = ''abcdefghijklmnopqrstuvwxyz''"
  "c \<notin> set ''ABCDEFGHIJKLMNOPQRSTUVWXYZ'' \<Longrightarrow> toLowerCase [c] = [c]"
  by (auto simp: toLowerCase_def toLowerCase_char_def)

lemma isTransientBLEError_patterns:
  "isTransientBLEError e \<longleftrightarrow>
     (let has = (\<lambda>pattern. js_includes (toLowerCase (err_message e)) pattern
                         \<or> js_includes (toLowerCase (err_name e)) pattern)
      in if err_class e = AbortErrorClass \<or> err_name e = ''AbortError'' then False
         else if err_class e = TimeoutErrorClass \<or> err_name e = ''TimeoutError'' then True
         else if has ''user cancelled'' \<or> has ''user canceled'' \<or> has ''user denied''
                 \<or> has ''notallowederror'' \<or> has ''securityerror'' \<or> has ''not found''
                 \<or> has ''no device selected'' \<or> has ''permission denied'' then False
         else if has ''network'' \<or> has ''gatt'' \<or> has ''connection'' \<or> has ''disconnect''
                 \<or> has ''failed to execute'' \<or> has ''operation failed''
                 \<or> has ''not connected'' then True
         else False)"
  by (simp add: isTransientBLEError_def matchesAny_def nonRetryablePatterns_def
      retryablePatterns_def Let_def)

text \<open>
  Claim C7, as amended. The default predicate decides in this order: an abort error
  (class or name \<open>AbortError\<close>) is never retryable; otherwise a timeout error (class or
  name \<open>TimeoutError\<close>) is retryable, whatever its message; otherwise an error whose
  lower-cased message or name contains one of "user cancelled", "user canceled",
  "user denied", "notallowederror", "securityerror", "not found", "no device selected",
  "permission denied" is not retryable; otherwise one whose lower-cased message or name
  contains one of "network", "gatt", "connection", "disconnect", "failed to execute",
  "operation failed", "not connected" is retryable; every other error is not retryable.
  Here a string contains a pattern when the pattern occurs in it as a contiguous
  substring, and lower-casing maps the letters A to Z to a to z, character by character,
  and leaves every other character as it is. \<open>withRetry\<close> uses this predicate when none
  is supplied.
\<close>

theorem default_retry_classification:
  "(isTransientBLEError e \<longleftrightarrow>
      (let has = (\<lambda>pattern. js_includes (toLowerCase (err_message e)) pattern
                          \<or> js_includes (toLowerCase (err_name e)) pattern)
       in if err_class e = AbortErrorClass \<or> err_name e = ''AbortError'' then False
          else if err_class e = TimeoutErrorClass \<or> err_name e = ''TimeoutError'' then True
          else if has ''user cancelled'' \<or> has ''user canceled'' \<or> has ''user denied''
                  \<or> has ''notallowederror'' \<or> has ''securityerror'' \<or> has ''not found''
                  \<or> has ''no device selected'' \<or> has ''permission denied'' then False
          else if has ''network'' \<or> has ''gatt'' \<or> has ''connection'' \<or> has ''disconnect''
                  \<or> has ''failed to execute'' \<or> has ''operation failed''
                  \<or> has ''not connected'' then True
          else False))
   \<and> (js_includes s p \<longleftrightarrow> (\<exists>xs ys. s = xs @ p @ ys))
   \<and> toLowerCase (s @ t) = toLowerCase s @ toLowerCase t
   \<and> toLowerCase ''ABCDEFGHIJKLMNOPQRSTUVWXYZ'' = ''abcdefghijklmnopqrstuvwxyz''
   \<and> (c \<notin> set ''ABCDEFGHIJKLMNOPQRSTUVWXYZ'' \<longrightarrow> toLowerCase [c] = [c])
   \<and> (isRetryable options = None \<longrightarrow>
        withRetry env options = withRetry env (options\<lparr>isRetryable := Some isTransientBLEError\<rparr>))"
proof -
  note a = isTransientBLEError_patterns[of e]
  note b = js_includes_iff[of s p]
  note c = toLowerCase_letters(1)[of s t] toLowerCase_letters(2)
  have d: "c \<notin> set ''ABCDEFGHIJKLMNOPQRSTUVWXYZ'' \<longrightarrow> toLowerCase [c] = [c]"
    using toLowerCase_letters(3)[of c] by blast
  have e: "isRetryable options = None \<longrightarrow>
        withRetry env options = withRetry env (options\<lparr>isRetryable := Some isTransientBLEError\<rparr>)"
    using withRetry_default_predicate[of options env] by blast
  from a b c d e show ?thesis by blast
qed

lemma gatt_failed_fields:
  "err_class gatt_failed = ErrorClass" "err_name gatt_failed = ''Error''"
  "err_message gatt_failed = ''GATT operation failed for unknown reason''"
  by (simp_all add: gatt_failed_def Error_def)

text \<open>
  Witness for C7: a GATT failure is retryable through the pattern "gatt" in its
  lower-cased message, and the default is the predicate used.
\<close>

theorem default_retry_classification_witness:
  "isTransientBLEError gatt_failed
   \<and> err_class gatt_failed = ErrorClass \<and> err_name gatt_failed = ''Error''
   \<and> toLowerCase (err_message gatt_failed) = ''gatt operation failed for unknown reason''
   \<and> js_includes ''gatt operation failed for unknown reason'' ''gatt''
   \<and> \<not> js_includes ''gatt operation failed for unknown reason'' ''not found''
   \<and> toLowerCase (''gatt operation failed for unknown reason'' @ ''TT'')
       = toLowerCase ''gatt operation failed for unknown reason'' @ toLowerCase ''TT''
   \<and> CHR ''-'' \<notin> set ''ABCDEFGHIJKLMNOPQRSTUVWXYZ'' \<and> toLowerCase ''-'' = ''-''
   \<and> isRetryable sample_options = None
   \<and> withRetry (always_ok ''ok'') (sample_options :: RetryOptions)
       = withRetry (always_ok ''ok'') (sample_options\<lparr>isRetryable := Some isTransientBLEError\<rparr>)"
proof -
  have n: "isRetryable sample_options = None" by (simp add: sample_options_def)
  have l: "toLowerCase (err_message gatt_failed) = ''gatt operation failed for unknown reason''"
    "toLowerCase (err_name gatt_failed) = ''error''"
    by (simp_all add: gatt_failed_fields toLowerCase_def toLowerCase_char_def)
  have m: "CHR ''-'' \<notin> set ''ABCDEFGHIJKLMNOPQRSTUVWXYZ''" by simp
  from default_retry_classification[where e = gatt_failed
      and s = "''gatt operation failed for unknown reason''" and p = "''gatt''"
      and t = "''TT''" and c = "CHR ''-''" and options = sample_options
      and env = "always_ok ''ok''"] n m
  show ?thesis
    unfolding l Let_def by (simp add: gatt_failed_fields)
qed

text \<open>
  Counterexample to C7 as stated: a timeout error whose message contains "not found" is
  classified retryable, and an error whose message names a network failure and contains
  "not found" is classified non-retryable.
\<close>

theorem retry_classification_counterexample:
  "matchesAny nonRetryablePatterns timeout_not_found
   \<and> js_includes (toLowerCase (err_message timeout_not_found)) ''not found''
   \<and> isTransientBLEError timeout_not_found
   \<and> matchesAny retryablePatterns network_not_found
   \<and> js_includes (toLowerCase (err_message network_not_found)) ''network''
   \<and> \<not> isTransientBLEError network_not_found"
  by (simp add: timeout_not_found_def network_not_found_def classify_defs)


text \<open>
  Cancellation during a wait (lines 343-348): the loop rejects with the reason of the
  signal. A reason named \<open>AbortError\<close> is converted into an \<open>AbortError\<close> carrying its
  message; any other reason is rethrown as it is. The operation ran once.
\<close>

lemma withRetry_cancelled_during_wait:
  "outcome (withRetry (cancelled_during_first_wait default_abort_reason :: string retry_env) with_signal)
     = Inl (AbortError ''This operation was aborted'')
   \<and> outcome (withRetry (cancelled_during_first_wait (Error ''stop'') :: string retry_env) with_signal)
     = Inl (Error ''stop'')
   \<and> invocations (withRetry (cancelled_during_first_wait (Error ''stop'') :: string retry_env) with_signal) = 1
   \<and> onRetryCalls (withRetry (cancelled_during_first_wait (Error ''stop'') :: string retry_env) with_signal)
     = [(1, 10, network_error)]"
proof -
  have two: "(2::nat) = Suc (Suc 0)" by simp
  have n: "nat (maxAttempts_of with_signal - 1) = 2" "\<not> maxAttempts_of with_signal < 1"
    "isRetryable_of with_signal = isTransientBLEError" "onRetry with_signal"
    "signal with_signal = Some \<lparr>aborted = False, reason_message = None\<rparr>"
    "initialDelayMs_of with_signal = 100" "maxDelayMs_of with_signal = 10"
    "backoffMultiplier_of with_signal = 1 / 2"
    by (simp_all add: with_signal_def sample_options_def maxAttempts_of_def isRetryable_of_def
        initialDelayMs_of_def maxDelayMs_of_def backoffMultiplier_of_def)
  show ?thesis
    unfolding withRetry_def Let_def n pRetry_def two
    using n(2,4)
    by (simp add: signal_aborted_def cancelled_during_first_wait_def network_error_retryable
        reported_delay_def default_abort_reason_def Error_def AbortError_def)
qed
section \<open>The connection pool: capacity, disconnect, reconnect\<close>

lemmas pool_defs = run_pool_def connect_def connect_resolved_def connect_rejected_def disconnect_def
  disconnect_step_def disconnectAll_def disconnect_resumed_def handleDisconnect_def reconnectDevice_def
  reconnectDevice_resolved_def reconnectDevice_rejected_def reconnectDevice_discarded_def
  register_handler_def run_cleanup_def emit_def call_def settle_def spawn_def finish_def
  createConnectionPool_def maxConnections_of_def autoReconnect_of_def MAX_BLE_CONNECTIONS_def

lemmas sample_defs = adapter1_def adapter2_def sessionA_def sessionB_def sessionA2_def sessionA3_def
  pool_of_one_def pool_default_def pool_of_two_def reconnect_in_flight_def connect_B_def
  teardown_rejects_def teardown_resolves_def teardown_error_def one_live_one_pending_def reconnect_overfills_def
  disconnect_during_reconnect_def disconnect_then_reconnect_twice_def

lemma log_fields [simp]:
  "sessions (emit ev st) = sessions st" "reconnectingDevices (emit ev st) = reconnectingDevices st"
  "sessions (call c st) = sessions st" "reconnectingDevices (call c st) = reconnectingDevices st"
  "sessions (settle r st) = sessions st" "reconnectingDevices (settle r st) = reconnectingDevices st"
  "sessions (spawn t st) = sessions st" "reconnectingDevices (spawn t st) = reconnectingDevices st"
  "sessions (finish t st) = sessions st" "reconnectingDevices (finish t st) = reconnectingDevices st"
  "sessions (run_cleanup k st) = sessions st" "reconnectingDevices (run_cleanup k st) = reconnectingDevices st"
  "sessions (register_handler k s st) = sessions st"
  "reconnectingDevices (register_handler k s st) = reconnectingDevices st"
  by (simp_all add: emit_def call_def settle_def spawn_def finish_def run_cleanup_def
      register_handler_def split: option.splits)

lemma unmarked_logs [simp]:
  "unmarked k (emit ev st) = unmarked k st" "unmarked k (call c st) = unmarked k st"
  "unmarked k (settle r st) = unmarked k st" "unmarked k (spawn t st) = unmarked k st"
  "unmarked k (finish t st) = unmarked k st" "unmarked k (run_cleanup k' st) = unmarked k st"
  "unmarked k (register_handler k' s st) = unmarked k st"
  by (simp_all add: unmarked_def)

lemma unmarked_handleDisconnect:
  "unmarked k st \<Longrightarrow> unmarked k (handleDisconnect options k' st)"
  by (cases "k' = k")
     (auto simp: unmarked_def handleDisconnect_def reconnectDevice_def Let_def AList.delete_conv'
           split: option.splits)

lemma unmarked_handlers:
  "unmarked k st \<Longrightarrow> unmarked k (foldl (\<lambda>s h. handleDisconnect options (snd h) s) st hs)"
  by (induction hs arbitrary: st) (simp_all add: unmarked_handleDisconnect)

lemma unmarked_disconnect:
  "unmarked k st \<Longrightarrow> unmarked k (snd (disconnect k' st))"
  by (auto simp: unmarked_def disconnect_def Let_def AList.delete_conv' split: option.splits)

lemma unmarked_disconnect_step:
  "unmarked k st \<Longrightarrow> unmarked k (disconnect_step st k')"
  using unmarked_disconnect[of k st k']
  by (cases "disconnect k' st") (auto simp: disconnect_step_def split: bool.splits)

lemma unmarked_disconnectAll_aux:
  "unmarked k st \<Longrightarrow> unmarked k (foldl disconnect_step st ks)"
  by (induction ks arbitrary: st) (simp_all add: unmarked_disconnect_step)

lemma unmarked_connect:
  "unmarked k st \<Longrightarrow> unmarked k (snd (connect options created st))"
  by (auto simp: unmarked_def connect_def Let_def split: sum.splits)

lemma unmarked_connect_resolved:
  "unmarked k st \<Longrightarrow> deviceId session \<noteq> k \<Longrightarrow> unmarked k (connect_resolved adapter session st)"
  by (simp add: unmarked_def connect_resolved_def Let_def AList.update_conv')

lemma unmarked_reconnect_resolved:
  "unmarked k st \<Longrightarrow> unmarked k (reconnectDevice_resolved k' session st)"
  by (auto simp: unmarked_def reconnectDevice_resolved_def Let_def AList.update_conv')

lemma unmarked_step:
  "unmarked k st \<Longrightarrow> \<not> connects_key k inp \<Longrightarrow> unmarked k (pool_step options st inp)"
proof (cases inp)
  case (CallConnect created)
  assume "unmarked k st"
  from unmarked_connect[OF this, of options created] CallConnect show ?thesis
    by (cases "connect options created st") (auto split: option.splits)
next
  case (CallDisconnect k')
  assume "unmarked k st"
  then show ?thesis using CallDisconnect by (simp add: unmarked_disconnect_step)
next
  case CallDisconnectAll
  assume "unmarked k st"
  then show ?thesis using CallDisconnectAll
    by (simp add: disconnectAll_def unmarked_disconnectAll_aux)
next
  case (SessionDropped sid)
  assume "unmarked k st"
  then show ?thesis using SessionDropped by (simp add: unmarked_handlers)
next
  case (ConnectSettled adapter res)
  assume u: "unmarked k st" and n: "\<not> connects_key k inp"
  show ?thesis
  proof (cases res)
    case (Inl e)
    then show ?thesis using u ConnectSettled
      by (simp add: connect_rejected_def unmarked_def)
  next
    case (Inr session)
    with n ConnectSettled have "deviceId session \<noteq> k" by simp
    then show ?thesis using u ConnectSettled Inr
      by (simp add: unmarked_connect_resolved)
  qed
next
  case (ReconnectSettled k' adapter res)
  assume u: "unmarked k st"
  show ?thesis
  proof (cases res)
    case (Inl e)
    then show ?thesis using u ReconnectSettled
      by (simp add: reconnectDevice_rejected_def unmarked_def Let_def)
  next
    case (Inr session)
    then show ?thesis using u ReconnectSettled
      by (simp add: unmarked_reconnect_resolved)
  qed
next
  case (DiscardSettled k' session)
  assume "unmarked k st"
  then show ?thesis using DiscardSettled
    by (simp add: reconnectDevice_discarded_def unmarked_def)
next
  case (TeardownSettled k' session failure)
  assume "unmarked k st"
  then show ?thesis using TeardownSettled
    by (simp add: disconnect_resumed_def unmarked_def split: option.splits)
qed

lemma unmarked_run:
  "unmarked k st \<Longrightarrow> \<forall>inp \<in> set inputs. \<not> connects_key k inp \<Longrightarrow> unmarked k (run_pool options st inputs)"
  unfolding run_pool_def
  by (induction inputs arbitrary: st) (simp_all add: unmarked_step)

lemma unmarked_after_disconnect: "unmarked k (snd (disconnect k st))"
  by (auto simp: unmarked_def disconnect_def Let_def AList.delete_conv' split: option.splits)

lemma discard_when_unmarked:
  assumes "unmarked k st" and "ReconnectAwait k adapter \<in> set (tasks st)"
  shows "pool_step options st (ReconnectSettled k adapter (Inr session)) =
           spawn (DiscardAwait k session)
             (call (SessionDisconnect session) (finish (ReconnectAwait k adapter) st))"
  using assms by (simp add: reconnectDevice_resolved_def unmarked_def)


text \<open>
  Claim C1 at its failing input. A pool with \<open>maxConnections = 1\<close> and auto-reconnect:
  device A connects and drops, \<open>connect()\<close> admits device B while the reconnect of A is
  in flight (the reconnect is not counted as pending), then the reconnect resolves and
  its session is stored without a capacity check: two sessions in a pool of one.
\<close>

theorem reconnect_exceeds_capacity:
  "connectionCount (run_pool pool_of_one createConnectionPool reconnect_overfills) = 2
   \<and> map fst (getSessions (run_pool pool_of_one createConnectionPool reconnect_overfills)) = [''B'', ''A'']
   \<and> pendingConnections (run_pool pool_of_one createConnectionPool reconnect_overfills) = 0
   \<and> maxConnections_of pool_of_one = 1"
  by (simp add: pool_defs sample_defs connectionCount_def getSessions_def Let_def)

lemma in_flight_state:
  "run_pool pool_default createConnectionPool reconnect_in_flight =
     \<lparr>sessions = [], adapters = [(''A'', adapter1)], disconnectCleanups = [],
      reconnectingDevices = {''A''}, pendingConnections = 0, handlers = [],
      tasks = [ReconnectAwait ''A'' adapter1],
      emitted = [ConnectEvent ''A'' sessionA, DisconnectEvent ''A''],
      calls = [CreateAdapter, AdapterConnect adapter1, SessionOnDisconnect sessionA ''A'',
               Cleanup 1 ''A'', ConnectWithRetry ''A'' adapter1],
      settled = [ConnectResolved sessionA]\<rparr>"
  by (simp add: pool_defs sample_defs Let_def)

text \<open>
  Claim C3 at its failing input. The claim: when \<open>disconnect(key)\<close> is called while an
  auto-reconnect for the key is in flight, the session that reconnect later resolves
  with is torn down, not stored, and no connect event is emitted for it. The run:
  device A connects and drops, so that its reconnect from adapter 1 is in flight;
  \<open>disconnect('A')\<close> clears the marker, the reconnect still pending; the application
  connects to A again and that session drops, which sets the marker again for a second
  reconnect; then the first reconnect resolves. It finds the marker set (one entry per
  key, not per attempt), and the session of the cancelled reconnect is stored and
  announced, and never torn down.
\<close>

theorem cancelled_reconnect_restored:
  "ReconnectAwait ''A'' adapter1 \<in> set (tasks (run_pool pool_default createConnectionPool reconnect_in_flight))
   \<and> reconnectingDevices (run_pool pool_default createConnectionPool disconnect_during_reconnect) = {}
   \<and> ReconnectAwait ''A'' adapter1
        \<in> set (tasks (run_pool pool_default createConnectionPool disconnect_during_reconnect))
   \<and> getSession (run_pool pool_default createConnectionPool disconnect_then_reconnect_twice) ''A''
        = Some sessionA3
   \<and> last (emitted (run_pool pool_default createConnectionPool disconnect_then_reconnect_twice))
        = ConnectEvent ''A'' sessionA3
   \<and> SessionDisconnect sessionA3
        \<notin> set (calls (run_pool pool_default createConnectionPool disconnect_then_reconnect_twice))"
  by (simp add: pool_defs sample_defs getSession_def Let_def)

text \<open>
  The guard of lines 246-250 does discard the session in the runs where, after
  \<open>disconnect(k)\<close>, no \<open>connect()\<close> resolves with a session under \<open>k\<close> before the reconnect
  resolves (a sufficient condition: only a session stored under \<open>k\<close> and then dropped can
  set the marker again).
\<close>

lemma reconnect_discarded_without_new_session:
  assumes "\<forall>inp \<in> set inputs. \<not> connects_key k inp"
    and "ReconnectAwait k adapter \<in> set (tasks (run_pool options (snd (disconnect k st)) inputs))"
  shows "k \<notin> reconnectingDevices (snd (disconnect k st))
       \<and> sessions (pool_step options (run_pool options (snd (disconnect k st)) inputs)
                      (ReconnectSettled k adapter (Inr session)))
           = sessions (run_pool options (snd (disconnect k st)) inputs)
       \<and> getSession (pool_step options (run_pool options (snd (disconnect k st)) inputs)
                      (ReconnectSettled k adapter (Inr session))) k = None
       \<and> emitted (pool_step options (run_pool options (snd (disconnect k st)) inputs)
                      (ReconnectSettled k adapter (Inr session)))
           = emitted (run_pool options (snd (disconnect k st)) inputs)
       \<and> calls (pool_step options (run_pool options (snd (disconnect k st)) inputs)
                      (ReconnectSettled k adapter (Inr session)))
           = calls (run_pool options (snd (disconnect k st)) inputs) @ [SessionDisconnect session]
       \<and> DiscardAwait k session
           \<in> set (tasks (pool_step options (run_pool options (snd (disconnect k st)) inputs)
                           (ReconnectSettled k adapter (Inr session))))"
proof -
  let ?st2 = "run_pool options (snd (disconnect k st)) inputs"
  have u1: "unmarked k (snd (disconnect k st))" by (rule unmarked_after_disconnect)
  from unmarked_run[OF u1 assms(1)] have u2: "unmarked k ?st2" .
  from discard_when_unmarked[OF u2 assms(2)] u1 u2 show ?thesis
    by (simp add: unmarked_def getSession_def spawn_def call_def finish_def)
qed

text \<open>
  An instance: the reconnect of A is in flight, \<open>disconnect('A')\<close> is called, device B
  connects in between, then the reconnect resolves.
\<close>

lemma reconnect_discarded_example:
  "list_all (\<lambda>inp. \<not> connects_key ''A'' inp) connect_B
   \<and> ReconnectAwait ''A'' adapter1 \<in> set (tasks (run_pool pool_default createConnectionPool reconnect_in_flight))
   \<and> ''A'' \<in> reconnectingDevices (run_pool pool_default createConnectionPool reconnect_in_flight)
   \<and> ReconnectAwait ''A'' adapter1
        \<in> set (tasks (run_pool pool_default
                         (snd (disconnect ''A'' (run_pool pool_default createConnectionPool reconnect_in_flight)))
                         connect_B))
   \<and> ''A'' \<notin> reconnectingDevices
                  (snd (disconnect ''A'' (run_pool pool_default createConnectionPool reconnect_in_flight)))
   \<and> map fst (sessions (pool_step pool_default
         (run_pool pool_default
            (snd (disconnect ''A'' (run_pool pool_default createConnectionPool reconnect_in_flight)))
            connect_B)
         (ReconnectSettled ''A'' adapter1 (Inr sessionA2)))) = [''B'']
   \<and> emitted (pool_step pool_default
         (run_pool pool_default
            (snd (disconnect ''A'' (run_pool pool_default createConnectionPool reconnect_in_flight)))
            connect_B)
         (ReconnectSettled ''A'' adapter1 (Inr sessionA2)))
       = [ConnectEvent ''A'' sessionA, DisconnectEvent ''A'', ConnectEvent ''B'' sessionB]"
proof -
  let ?st = "run_pool pool_default createConnectionPool reconnect_in_flight"
  let ?st2 = "run_pool pool_default (snd (disconnect ''A'' ?st)) connect_B"
  have a: "\<forall>inp \<in> set connect_B. \<not> connects_key ''A'' inp"
    by (simp add: connect_B_def sessionB_def)
  have st2: "?st2 =
     \<lparr>sessions = [(''B'', sessionB)], adapters = [(''A'', adapter1), (''B'', adapter2)],
      disconnectCleanups = [(''B'', 2)],
      reconnectingDevices = {}, pendingConnections = 0, handlers = [(2, ''B'')],
      tasks = [ReconnectAwait ''A'' adapter1],
      emitted = [ConnectEvent ''A'' sessionA, DisconnectEvent ''A'', ConnectEvent ''B'' sessionB],
      calls = [CreateAdapter, AdapterConnect adapter1, SessionOnDisconnect sessionA ''A'',
               Cleanup 1 ''A'', ConnectWithRetry ''A'' adapter1,
               CreateAdapter, AdapterConnect adapter2, SessionOnDisconnect sessionB ''B''],
      settled = [ConnectResolved sessionA, ConnectResolved sessionB]\<rparr>"
    unfolding in_flight_state
    by (simp add: pool_defs connect_B_def sessionB_def adapter2_def adapter1_def pool_default_def Let_def)
  have b: "ReconnectAwait ''A'' adapter1 \<in> set (tasks ?st2)"
    unfolding st2 by simp
  have c: "ReconnectAwait ''A'' adapter1 \<in> set (tasks ?st)" "''A'' \<in> reconnectingDevices ?st"
    by (simp_all add: in_flight_state)
  from reconnect_discarded_without_new_session[OF a b, of sessionA2] a b c
  show ?thesis
    by (simp add: st2 list_all_iff)
qed

text \<open>
  What \<open>disconnect(k)\<close> does, case by case (lines 317-335). On a key without a session
  it resolves at once, having cleared the reconnecting marker of \<open>k\<close>. On a key with a
  session it clears the marker, removes the session and the adapter, emits nothing yet,
  calls the session's teardown and suspends on it; when the teardown resolves it emits
  the disconnect event and resolves; when the teardown rejects, the promise rejects
  with the teardown's error.
\<close>

lemma disconnect_outcomes:
  "(getSession st k = None \<longrightarrow>
      disconnect k st = (True, st\<lparr>reconnectingDevices := reconnectingDevices st - {k}\<rparr>))
   \<and> (getSession st k = Some session \<longrightarrow>
        fst (disconnect k st) = False
        \<and> getSession (snd (disconnect k st)) k = None
        \<and> map_of (adapters (snd (disconnect k st))) k = None
        \<and> k \<notin> reconnectingDevices (snd (disconnect k st))
        \<and> emitted (snd (disconnect k st)) = emitted st
        \<and> last (calls (snd (disconnect k st))) = SessionDisconnect session
        \<and> tasks (snd (disconnect k st)) = tasks st @ [DisconnectAwait k session])
   \<and> disconnect_resumed k None st' = (DisconnectResolved k, st'\<lparr>emitted := emitted st' @ [DisconnectEvent k]\<rparr>)
   \<and> fst (disconnect_resumed k (Some e) st') = DisconnectRejected k e"
  by (auto simp: getSession_def disconnect_def disconnect_resumed_def Let_def emit_def call_def spawn_def
        run_cleanup_def AList.delete_conv' split: option.splits)

text \<open>An instance: with device A connected, \<open>disconnect('B')\<close> and \<open>disconnect('A')\<close>.\<close>

lemma disconnect_outcomes_example:
  "getSession (run_pool pool_default createConnectionPool connected_to_A) ''B'' = None
   \<and> disconnect ''B'' (run_pool pool_default createConnectionPool connected_to_A)
       = (True, (run_pool pool_default createConnectionPool connected_to_A)
                  \<lparr>reconnectingDevices :=
                     reconnectingDevices (run_pool pool_default createConnectionPool connected_to_A) - {''B''}\<rparr>)
   \<and> getSession (run_pool pool_default createConnectionPool connected_to_A) ''A'' = Some sessionA
   \<and> fst (disconnect ''A'' (run_pool pool_default createConnectionPool connected_to_A)) = False
   \<and> getSession (snd (disconnect ''A'' (run_pool pool_default createConnectionPool connected_to_A))) ''A'' = None
   \<and> tasks (snd (disconnect ''A'' (run_pool pool_default createConnectionPool connected_to_A)))
       = tasks (run_pool pool_default createConnectionPool connected_to_A) @ [DisconnectAwait ''A'' sessionA]
   \<and> fst (disconnect_resumed ''A'' (Some teardown_error) createConnectionPool)
       = DisconnectRejected ''A'' teardown_error"
proof -
  let ?st = "run_pool pool_default createConnectionPool connected_to_A"
  have a: "getSession ?st ''B'' = None" and b: "getSession ?st ''A'' = Some sessionA"
    by (simp_all add: pool_defs sample_defs connected_to_A_def getSession_def Let_def)
  from disconnect_outcomes[of ?st "''B''" sessionA createConnectionPool teardown_error]
    disconnect_outcomes[of ?st "''A''" sessionA createConnectionPool teardown_error] a b
  show ?thesis by simp
qed

text \<open>
  Claim C2 at its failing input. The claim: \<open>disconnect(key)\<close> on a tracked key removes
  the entry, awaits the teardown and emits a disconnect notification whether the
  teardown succeeded or rejected, a failure being propagated to the caller. The run:
  device A connects, \<open>disconnect('A')\<close> is called and the teardown of the session rejects.
  The session is removed and the promise is rejected with the teardown's error, but no
  disconnect event is emitted: the \<open>emit\<close> of line 334 follows the \<open>await\<close> of line 333
  with no \<open>try\<close>/\<open>finally\<close>. When the teardown resolves the event is emitted, and so it
  is when the session drops by itself (\<open>handleDisconnect\<close>, lines 193-205).
\<close>

theorem disconnect_teardown_failure_emits_nothing:
  "getSession (run_pool pool_default createConnectionPool connected_to_A) ''A'' = Some sessionA
   \<and> getSession (run_pool pool_default createConnectionPool teardown_rejects) ''A'' = None
   \<and> isConnected (run_pool pool_default createConnectionPool teardown_rejects) ''A'' = False
   \<and> settled (run_pool pool_default createConnectionPool teardown_rejects)
       = [ConnectResolved sessionA, DisconnectRejected ''A'' teardown_error]
   \<and> tasks (run_pool pool_default createConnectionPool teardown_rejects) = []
   \<and> emitted (run_pool pool_default createConnectionPool teardown_rejects) = [ConnectEvent ''A'' sessionA]
   \<and> DisconnectEvent ''A'' \<notin> set (emitted (run_pool pool_default createConnectionPool teardown_rejects))
   \<and> emitted (run_pool pool_default createConnectionPool teardown_resolves)
       = [ConnectEvent ''A'' sessionA, DisconnectEvent ''A'']
   \<and> emitted (run_pool pool_default createConnectionPool reconnect_in_flight)
       = [ConnectEvent ''A'' sessionA, DisconnectEvent ''A'']"
  by (simp add: pool_defs sample_defs connected_to_A_def getSession_def isConnected_def Let_def)

text \<open>
  Claim C6. When the live sessions plus the pending counter equal \<open>maxConnections\<close>,
  \<open>connect()\<close> rejects with the capacity error and returns the pool unchanged: no call
  was made on any collaborator (\<open>createAdapter\<close> and \<open>adapter.connect\<close> included), the
  pending counter and the sessions are as before. With \<open>maxAttempts < 1\<close>, \<open>withRetry\<close>
  rejects with a \<open>RangeError\<close> and the operation is not invoked.
\<close>

theorem errors_before_side_effects:
  "(connectionCount st + pendingConnections st = maxConnections_of options \<longrightarrow>
      connect options created st = (Some (capacity_error (maxConnections_of options)), st)
      \<and> pool_step options st (CallConnect created)
          = st\<lparr>settled := settled st @ [ConnectRejected (capacity_error (maxConnections_of options))]\<rparr>
      \<and> calls (pool_step options st (CallConnect created)) = calls st
      \<and> pendingConnections (pool_step options st (CallConnect created)) = pendingConnections st
      \<and> sessions (pool_step options st (CallConnect created)) = sessions st)
   \<and> (maxAttempts_of retryOptions < 1 \<longrightarrow>
        outcome (withRetry env retryOptions)
          = Inl (RangeError (''maxAttempts must be >= 1, got '' @ show_int (maxAttempts_of retryOptions)))
        \<and> invocations (withRetry env retryOptions) = 0
        \<and> onRetryCalls (withRetry env retryOptions) = [])"
  by (simp add: connectionCount_def connect_def settle_def withRetry_def)

text \<open>
  Witness for C6: a pool of two with one live session and one connect in flight, and
  \<open>maxAttempts = 0\<close>.
\<close>

theorem errors_before_side_effects_witness:
  "connectionCount (run_pool pool_of_two createConnectionPool one_live_one_pending) = 1
   \<and> pendingConnections (run_pool pool_of_two createConnectionPool one_live_one_pending) = 1
   \<and> maxConnections_of pool_of_two = 2
   \<and> fst (connect pool_of_two (Inr adapter2) (run_pool pool_of_two createConnectionPool one_live_one_pending))
       = Some (capacity_error 2)
   \<and> calls (pool_step pool_of_two (run_pool pool_of_two createConnectionPool one_live_one_pending)
               (CallConnect (Inr adapter2)))
       = calls (run_pool pool_of_two createConnectionPool one_live_one_pending)
   \<and> maxAttempts_of zero_attempts = 0
   \<and> outcome (withRetry (always_ok ''ok'') zero_attempts)
       = Inl (RangeError ''maxAttempts must be >= 1, got 0'')
   \<and> invocations (withRetry (always_ok ''ok'') zero_attempts) = 0"
proof -
  let ?st = "run_pool pool_of_two createConnectionPool one_live_one_pending"
  have a: "connectionCount ?st = 1" "pendingConnections ?st = 1" "maxConnections_of pool_of_two = 2"
    by (simp_all add: pool_defs sample_defs connectionCount_def Let_def)
  have b: "maxAttempts_of zero_attempts = 0"
    by (simp add: zero_attempts_def maxAttempts_of_def)
  have c: "show_int 0 = ''0''" by (simp add: show_int_def digit_char_def)
  from errors_before_side_effects[of ?st pool_of_two "Inr adapter2" zero_attempts "always_ok ''ok''"] a b c
  show ?thesis by (simp add: settle_def)
qed

end
